theory Spec2Isabelle
  imports Complex_Main "HOL-Library.Signed_Division"
begin

section \<open>Exact Lagrange interpolation at zero over BigInt fractions (solve.js)\<close>

text \<open>
  The program decodes base-encoded sample values, interpolates the sample points at
  \<open>x = 0\<close> with exact fractions of arbitrary-precision integers and prints the result
  when it is an integer.  A JavaScript \<open>BigInt\<close> is an \<open>int\<close>.  A JavaScript string is
  a \<open>string\<close> whose characters stand for the UTF-16 code units 0 to 255; strings with
  other code units are outside the model.  Every \<open>throw\<close> of the source, and every
  exception the runtime raises for an operation the source performs, is a value of type
  \<open>error\<close>, returned on the left of a sum.
\<close>

subsection \<open>Errors\<close>

datatype error =
    DenominatorZero            \<comment> \<open>\<open>Error("Denominator zero")\<close>\<close>
  | DivisionByZeroFraction     \<comment> \<open>\<open>Error("Division by zero fraction")\<close>\<close>
  | ResultNotInteger string    \<comment> \<open>\<open>Error("Result is not integer: " + this.toString())\<close>\<close>
  | UnsupportedBase string     \<comment> \<open>\<open>Error("Unsupported base: " + baseStr)\<close>\<close>
  | InvalidDigit char          \<comment> \<open>\<open>Error("Invalid digit in value: " + ch)\<close>\<close>
  | DigitNotValid char int     \<comment> \<open>\<open>Error(`Digit ${ch} not valid for base ${base}`)\<close>\<close>
  | DuplicateXValues           \<comment> \<open>\<open>Error("Duplicate x values encountered")\<close>\<close>
  | RangeError                 \<comment> \<open>raised by the runtime: BigInt division by zero\<close>
  | SyntaxError string         \<comment> \<open>raised by the runtime: \<open>BigInt(key)\<close> cannot convert \<open>key\<close>\<close>
  | TypeError                  \<comment> \<open>raised by the runtime: a value has no primitive form, or is \<open>null\<close>\<close>

subsection \<open>BigInt operators of the runtime\<close>

text \<open>
  BigInt \<open>/\<close> truncates towards zero and \<open>%\<close> takes the sign of the dividend: these are
  \<open>sdiv\<close> and \<open>smod\<close> on \<open>int\<close>.  Both raise a RangeError when the divisor is \<open>0n\<close>.
\<close>

definition bigDiv :: "int \<Rightarrow> int \<Rightarrow> error + int" where
  "bigDiv a b = (if b = 0 then Inl RangeError else Inr (a sdiv b))"

definition bigRem :: "int \<Rightarrow> int \<Rightarrow> error + int" where
  "bigRem a b = (if b = 0 then Inl RangeError else Inr (a smod b))"

text \<open>
  \<open>BigInt.prototype.toString(radix)\<close>: the digits \<open>0-9a-z\<close>, most significant first, with
  a leading minus sign for a negative value.  \<open>render_digits b n\<close> writes a non-negative
  \<open>n\<close> in the radix \<open>b\<close>; the source only calls \<open>toString\<close> with the default radix 10.
\<close>

definition digit_char :: "int \<Rightarrow> char" where
  "digit_char d = (if d < 10 then char_of (48 + d) else char_of (87 + d))"

function render_digits :: "int \<Rightarrow> int \<Rightarrow> string" where
  "render_digits b n =
     (if b < 2 \<or> n < b then [digit_char n]
      else render_digits b (n div b) @ [digit_char (n mod b)])"
  by pat_completeness auto
termination
proof (relation "measure (\<lambda>(b, n). nat n)")
  show "wf (measure (\<lambda>(b, n). nat n))" by simp
next
  fix b n :: int
  assume "\<not> (b < 2 \<or> n < b)"
  then have "2 \<le> b" "0 < n" by simp_all
  then have "n div b < n" by (simp add: int_div_less_self)
  with \<open>0 < n\<close> show "((b, n div b), (b, n)) \<in> measure (\<lambda>(b, n). nat n)"
    by simp
qed

declare render_digits.simps [simp del]

definition BigInt_toString :: "int \<Rightarrow> string" where
  "BigInt_toString i =
     (if i < 0 then CHR ''-'' # render_digits 10 (- i) else render_digits 10 i)"

subsection \<open>bigGcd\<close>

text \<open>The \<open>while (b !== 0n)\<close> loop of \<open>bigGcd\<close>; the remainder is only taken under the guard.\<close>

function bigGcd_loop :: "int \<Rightarrow> int \<Rightarrow> int" where
  "bigGcd_loop a b = (if b \<noteq> 0 then bigGcd_loop b (a smod b) else a)"
  by pat_completeness auto
termination
proof (relation "measure (\<lambda>(a, b). nat \<bar>b\<bar>)")
  show "wf (measure (\<lambda>(a, b). nat \<bar>b\<bar>))" by simp
next
  fix a b :: int
  assume "b \<noteq> 0"
  then have "\<bar>a smod b\<bar> < \<bar>b\<bar>"
    by (cases "a = 0") (simp_all add: signed_modulo_int_def abs_mult)
  then show "((b, a smod b), (a, b)) \<in> measure (\<lambda>(a, b). nat \<bar>b\<bar>)"
    by simp
qed

declare bigGcd_loop.simps [simp del]

definition bigGcd :: "int \<Rightarrow> int \<Rightarrow> int" where
  "bigGcd a b = bigGcd_loop (if a < 0 then - a else a) (if b < 0 then - b else b)"

subsection \<open>Fraction\<close>

record fraction =
  num :: int
  den :: int

text \<open>
  The constructor \<open>new Fraction(num, den)\<close>: it rejects a zero denominator, moves the sign
  to the numerator and divides both parts by their \<open>bigGcd\<close>.
\<close>

definition Fraction :: "int \<Rightarrow> int \<Rightarrow> error + fraction" where
  "Fraction n d =
     (if d = 0 then Inl DenominatorZero
      else
        let n1 = (if d < 0 then - n else n);
            d1 = (if d < 0 then - d else d);
            g = bigGcd n1 d1
        in case bigDiv n1 g of
             Inl e \<Rightarrow> Inl e
           | Inr a \<Rightarrow> (case bigDiv d1 g of
                         Inl e \<Rightarrow> Inl e
                       | Inr b \<Rightarrow> Inr \<lparr>num = a, den = b\<rparr>))"

definition Fraction_add :: "fraction \<Rightarrow> fraction \<Rightarrow> error + fraction" where
  "Fraction_add this other =
     Fraction (num this * den other + num other * den this) (den this * den other)"

definition Fraction_sub :: "fraction \<Rightarrow> fraction \<Rightarrow> error + fraction" where
  "Fraction_sub this other =
     Fraction (num this * den other - num other * den this) (den this * den other)"

definition Fraction_mul :: "fraction \<Rightarrow> fraction \<Rightarrow> error + fraction" where
  "Fraction_mul this other = Fraction (num this * num other) (den this * den other)"

definition Fraction_div :: "fraction \<Rightarrow> fraction \<Rightarrow> error + fraction" where
  "Fraction_div this other =
     (if num other = 0 then Inl DivisionByZeroFraction
      else Fraction (num this * den other) (den this * num other))"

definition Fraction_toString :: "fraction \<Rightarrow> string" where
  "Fraction_toString this =
     (if den this = 1 then BigInt_toString (num this)
      else BigInt_toString (num this) @ ''/'' @ BigInt_toString (den this))"

definition toIntegerStringIfExact :: "fraction \<Rightarrow> error + string" where
  "toIntegerStringIfExact this =
     (if den this = 1 then Inr (BigInt_toString (num this))
      else case bigRem (num this) (den this) of
             Inl e \<Rightarrow> Inl e
           | Inr r \<Rightarrow>
               if r = 0 then
                 (case bigDiv (num this) (den this) of
                    Inl e \<Rightarrow> Inl e
                  | Inr q \<Rightarrow> Inr (BigInt_toString q))
               else Inl (ResultNotInteger (Fraction_toString this)))"

text \<open>The invariant of the data model: positive denominator, lowest terms.\<close>

definition reduced :: "fraction \<Rightarrow> bool" where
  "reduced f \<longleftrightarrow> 0 < den f \<and> gcd \<bar>num f\<bar> (den f) = 1"

subsection \<open>String operations of the runtime\<close>

text \<open>
  \<open>String.prototype.trim\<close> removes white space and line terminators from both ends; among
  the code units 0 to 255 these are TAB, LF, VT, FF, CR, SP and NBSP.
  \<open>String.prototype.toLowerCase\<close> maps \<open>A-Z\<close>, and the Latin-1 capitals 192 to 222 other
  than the multiplication sign 215, to the code unit 32 above.
\<close>

definition isWhiteSpace :: "char \<Rightarrow> bool" where
  "isWhiteSpace c \<longleftrightarrow> (of_char c :: int) \<in> {9, 10, 11, 12, 13, 32, 160}"

definition trim :: "string \<Rightarrow> string" where
  "trim s = rev (dropWhile isWhiteSpace (rev (dropWhile isWhiteSpace s)))"

definition toLowerCase_char :: "char \<Rightarrow> char" where
  "toLowerCase_char c =
     (let u = (of_char c :: int)
      in if (65 \<le> u \<and> u \<le> 90) \<or> (192 \<le> u \<and> u \<le> 222 \<and> u \<noteq> 215) then char_of (u + 32)
         else c)"

definition toLowerCase :: "string \<Rightarrow> string" where
  "toLowerCase s = map toLowerCase_char s"

subsection \<open>decodeValueToBigInt\<close>

text \<open>
  \<open>Number(baseStr)\<close> converts a string to a floating-point number, which the model does
  not represent.  The function takes the conversion as its first argument: \<open>Number_int s\<close>
  is \<open>Some b\<close> when \<open>Number(s)\<close> passes \<open>Number.isInteger\<close> and has the integer value \<open>b\<close>,
  and \<open>None\<close> otherwise (NaN, an infinity or a fraction).  Everything the source does
  with \<open>base\<close> after the guard depends on that integer only.
\<close>

text \<open>The body of the \<open>for (let ch of s)\<close> loop, with the accumulator \<open>acc\<close>.\<close>

fun decode_loop :: "int \<Rightarrow> string \<Rightarrow> int \<Rightarrow> error + int" where
  "decode_loop base [] acc = Inr acc"
| "decode_loop base (ch # s) acc =
     (let c = (of_char ch :: int)
      in if 48 \<le> c \<and> c \<le> 57 then
           (let digit = c - 48
            in if digit \<ge> base then Inl (DigitNotValid ch base)
               else decode_loop base s (acc * base + digit))
         else if 97 \<le> c \<and> c \<le> 122 then
           (let digit = c - 87
            in if digit \<ge> base then Inl (DigitNotValid ch base)
               else decode_loop base s (acc * base + digit))
         else Inl (InvalidDigit ch))"

definition decodeValueToBigInt ::
  "(string \<Rightarrow> int option) \<Rightarrow> string \<Rightarrow> string \<Rightarrow> error + int" where
  "decodeValueToBigInt Number_int valueStr baseStr =
     (case Number_int baseStr of
        None \<Rightarrow> Inl (UnsupportedBase baseStr)
      | Some base \<Rightarrow>
          if \<not> (base \<ge> 2 \<and> base \<le> 36) then Inl (UnsupportedBase baseStr)
          else decode_loop base (toLowerCase (trim valueStr)) 0)"

subsection \<open>lagrangeAtZero\<close>

record point =
  x :: int
  y :: int

text \<open>
  The inner loop \<open>for (let j = 0; j < k; j++)\<close> runs over the indices \<open>[0..<k]\<close>; its state
  is the fraction \<open>numerator\<close>.
\<close>

fun product_loop :: "point list \<Rightarrow> nat \<Rightarrow> nat list \<Rightarrow> fraction \<Rightarrow> error + fraction" where
  "product_loop points i [] numerator = Inr numerator"
| "product_loop points i (j # js) numerator =
     (if j = i then product_loop points i js numerator
      else
        let negXj = - x (points ! j);
            denom = x (points ! i) - x (points ! j)
        in if denom = 0 then Inl DuplicateXValues
           else case Fraction negXj denom of
                  Inl e \<Rightarrow> Inl e
                | Inr f \<Rightarrow> (case Fraction_mul numerator f of
                              Inl e \<Rightarrow> Inl e
                            | Inr m \<Rightarrow> product_loop points i js m))"

text \<open>The outer loop \<open>for (let i = 0; i < k; i++)\<close>; its state is the fraction \<open>result\<close>.\<close>

fun sum_loop :: "point list \<Rightarrow> nat list \<Rightarrow> fraction \<Rightarrow> error + fraction" where
  "sum_loop points [] result = Inr result"
| "sum_loop points (i # is) result =
     (case Fraction (y (points ! i)) 1 of
        Inl e \<Rightarrow> Inl e
      | Inr numerator0 \<Rightarrow>
          (case product_loop points i [0..<length points] numerator0 of
             Inl e \<Rightarrow> Inl e
           | Inr numerator \<Rightarrow>
               (case Fraction_add result numerator of
                  Inl e \<Rightarrow> Inl e
                | Inr r \<Rightarrow> sum_loop points is r)))"

definition lagrangeAtZero :: "point list \<Rightarrow> error + fraction" where
  "lagrangeAtZero points =
     (case Fraction 0 1 of
        Inl e \<Rightarrow> Inl e
      | Inr result \<Rightarrow> sum_loop points [0..<length points] result)"

subsection \<open>BigInt(key)\<close>

text \<open>
  The conversion of a string to a BigInt: white space is trimmed; the empty string is
  \<open>0n\<close>; otherwise the text is a decimal numeral with an optional sign, or an unsigned
  numeral with the prefix \<open>0x\<close>, \<open>0o\<close> or \<open>0b\<close> (in either case); anything else raises a
  SyntaxError.
\<close>

definition digit_value :: "char \<Rightarrow> int option" where
  "digit_value ch =
     (let c = (of_char ch :: int)
      in if 48 \<le> c \<and> c \<le> 57 then Some (c - 48)
         else if 97 \<le> c \<and> c \<le> 122 then Some (c - 87)
         else if 65 \<le> c \<and> c \<le> 90 then Some (c - 55)
         else None)"

fun numeral_value :: "int \<Rightarrow> string \<Rightarrow> int \<Rightarrow> int option" where
  "numeral_value radix [] acc = Some acc"
| "numeral_value radix (ch # s) acc =
     (case digit_value ch of
        None \<Rightarrow> None
      | Some d \<Rightarrow> if d < radix then numeral_value radix s (acc * radix + d) else None)"

definition digits_value :: "int \<Rightarrow> string \<Rightarrow> int option" where
  "digits_value radix s = (if s = [] then None else numeral_value radix s 0)"

definition StringToBigInt :: "string \<Rightarrow> int option" where
  "StringToBigInt s =
     (case trim s of
        [] \<Rightarrow> Some 0
      | c # rest \<Rightarrow>
          if c = CHR ''+'' then digits_value 10 rest
          else if c = CHR ''-'' then map_option uminus (digits_value 10 rest)
          else if c = CHR ''0'' \<and> rest \<noteq> [] \<and> hd rest \<in> {CHR ''x'', CHR ''X''}
            then digits_value 16 (tl rest)
          else if c = CHR ''0'' \<and> rest \<noteq> [] \<and> hd rest \<in> {CHR ''o'', CHR ''O''}
            then digits_value 8 (tl rest)
          else if c = CHR ''0'' \<and> rest \<noteq> [] \<and> hd rest \<in> {CHR ''b'', CHR ''B''}
            then digits_value 2 (tl rest)
          else digits_value 10 (c # rest))"

definition BigInt_of_string :: "string \<Rightarrow> error + int" where
  "BigInt_of_string s = (case StringToBigInt s of None \<Rightarrow> Inl (SyntaxError s) | Some v \<Rightarrow> Inr v)"

subsection \<open>main\<close>

text \<open>
  The model of \<open>main\<close> starts from the value \<open>data\<close> that \<open>JSON.parse\<close> returned; reading
  the file and parsing it are not modelled.  \<open>main\<close> sees a property \<open>base\<close> or \<open>value\<close> of
  an entry only through the test \<open>in\<close> of line 164 and the coercion \<open>String(...)\<close> of line
  168, so the property is represented by what these observe: \<open>Missing\<close> when \<open>in\<close> is
  false; \<open>Stringifies s\<close> when \<open>String\<close> returns \<open>s\<close>; \<open>Unstringifiable\<close> when \<open>String\<close>
  throws a TypeError (the property is an object with an own \<open>toString\<close> property, which
  JSON cannot make callable, or an array that holds one).
\<close>

datatype property = Missing | Stringifies string | Unstringifiable

text \<open>
  \<open>NonObject\<close> is an entry that is falsy or whose \<open>typeof\<close> is not \<open>'object'\<close>; \<open>Object b v\<close>
  is an object (or array) with the properties \<open>base\<close> and \<open>value\<close> as above.
\<close>

datatype jsvalue = NonObject | Object property property

definition is_object :: "jsvalue \<Rightarrow> bool" where
  "is_object obj = (case obj of NonObject \<Rightarrow> False | Object b v \<Rightarrow> True)"

definition base_property :: "jsvalue \<Rightarrow> property" where
  "base_property obj = (case obj of NonObject \<Rightarrow> Missing | Object b v \<Rightarrow> b)"

definition value_property :: "jsvalue \<Rightarrow> property" where
  "value_property obj = (case obj of NonObject \<Rightarrow> Missing | Object b v \<Rightarrow> v)"

definition has_base :: "jsvalue \<Rightarrow> bool" where
  "has_base obj \<longleftrightarrow> base_property obj \<noteq> Missing"

definition has_value :: "jsvalue \<Rightarrow> bool" where
  "has_value obj \<longleftrightarrow> value_property obj \<noteq> Missing"

text \<open>
  \<open>String(obj.base)\<close> and \<open>String(obj.value)\<close>.  A missing property reads as \<open>undefined\<close>;
  line 168 is reached only for an object that has both.
\<close>

definition String_property :: "property \<Rightarrow> error + string" where
  "String_property p =
     (case p of
        Missing \<Rightarrow> Inr ''undefined''
      | Stringifies s \<Rightarrow> Inr s
      | Unstringifiable \<Rightarrow> Inl TypeError)"

definition String_base :: "jsvalue \<Rightarrow> error + string" where
  "String_base obj = String_property (base_property obj)"

definition String_value :: "jsvalue \<Rightarrow> error + string" where
  "String_value obj = String_property (value_property obj)"

text \<open>The condition of line 164 under which the loop executes \<open>continue\<close>.\<close>

definition skipped :: "jsvalue \<Rightarrow> bool" where
  "skipped obj \<longleftrightarrow> \<not> is_object obj \<or> \<not> has_base obj \<or> \<not> has_value obj"

text \<open>
  \<open>Number(data.keys.n)\<close> and \<open>Number(data.keys.k)\<close> as lines 151 to 153 observe them:
  \<open>IntegerNumber i\<close> when the result passes \<open>Number.isInteger\<close> and has the value \<open>i\<close>;
  \<open>OtherNumber\<close> when it does not (NaN, an infinity, a fraction); \<open>NumberThrows\<close> when
  \<open>Number\<close> throws a TypeError, as \<open>String\<close> does above.
\<close>

datatype numeric = IntegerNumber int | OtherNumber | NumberThrows

text \<open>
  What lines 146 to 152 observe of \<open>data\<close>: \<open>NullData\<close> when \<open>data\<close> is \<open>null\<close>, so that
  reading \<open>data.keys\<close> throws a TypeError; \<open>NoKeys\<close> when \<open>data.keys\<close> is falsy or not an
  object; otherwise the two numbers.  \<open>props\<close> lists the keys of \<open>data\<close> with their
  values, in the order of \<open>Object.keys(data)\<close>.
\<close>

datatype header = NullData | NoKeys | Keys numeric numeric

record data =
  keys :: header
  props :: "(string \<times> jsvalue) list"

record entry = point +
  rawKey :: string

text \<open>
  Lines 167 to 169, the part of the loop body after the test: the key is converted first,
  then the arguments of the decoder from left to right, then the value is decoded.
\<close>

definition entry_of :: "(string \<Rightarrow> int option) \<Rightarrow> string \<Rightarrow> jsvalue \<Rightarrow> error + entry" where
  "entry_of Number_int key obj =
     (case BigInt_of_string key of
        Inl e \<Rightarrow> Inl e
      | Inr xv \<Rightarrow>
          (case String_value obj of
             Inl e \<Rightarrow> Inl e
           | Inr valueStr \<Rightarrow>
               (case String_base obj of
                  Inl e \<Rightarrow> Inl e
                | Inr baseStr \<Rightarrow>
                    (case decodeValueToBigInt Number_int valueStr baseStr of
                       Inl e \<Rightarrow> Inl e
                     | Inr yv \<Rightarrow> Inr \<lparr>x = xv, y = yv, rawKey = key\<rparr>))))"

text \<open>The collection loop; \<open>entries.push\<close> appends to the accumulator.\<close>

fun collect ::
  "(string \<Rightarrow> int option) \<Rightarrow> (string \<times> jsvalue) list \<Rightarrow> entry list \<Rightarrow> error + entry list" where
  "collect Number_int [] entries = Inr entries"
| "collect Number_int ((key, obj) # rest) entries =
     (if key = ''keys'' then collect Number_int rest entries
      else if skipped obj then collect Number_int rest entries
      else case entry_of Number_int key obj of
             Inl e \<Rightarrow> Inl e
           | Inr en \<Rightarrow> collect Number_int rest (entries @ [en]))"

text \<open>
  What a run of \<open>main\<close> ends with: a line on standard output, or one of the messages on
  standard error followed by \<open>process.exit(1)\<close>, or an exception that leaves \<open>main\<close>
  (the header checks and the collection loop are outside the \<open>try\<close> block).
\<close>

datatype failure =
    MissingKeysObject            \<comment> \<open>\<open>"Invalid JSON: missing keys object"\<close>\<close>
  | InvalidKeys                  \<comment> \<open>\<open>"Invalid keys.n or keys.k"\<close>\<close>
  | NotEnoughPoints nat int      \<comment> \<open>\<open>`Not enough points provided: have ${entries.length}, need ${k}`\<close>\<close>
  | ErrorComputingSecret error   \<comment> \<open>\<open>"Error computing secret:"\<close> with the message\<close>
  | Uncaught error               \<comment> \<open>an exception thrown outside the \<open>try\<close> block\<close>

text \<open>
  \<open>Array.prototype.sort\<close> is stable, and the comparator orders by \<open>x\<close> alone: this is
  \<open>sort_key x\<close>.  \<open>slice(0, k)\<close> is \<open>take\<close>.
\<close>

definition chosen :: "int \<Rightarrow> entry list \<Rightarrow> point list" where
  "chosen k entries = map (\<lambda>e. \<lparr>x = x e, y = y e\<rparr>) (take (nat k) (sort_key x entries))"

definition main :: "(string \<Rightarrow> int option) \<Rightarrow> data \<Rightarrow> failure + string" where
  "main Number_int d =
     (case keys d of
        NullData \<Rightarrow> Inl (Uncaught TypeError)
      | NoKeys \<Rightarrow> Inl MissingKeysObject
      | Keys nn kk \<Rightarrow>
          (case nn of
             NumberThrows \<Rightarrow> Inl (Uncaught TypeError)
           | OtherNumber \<Rightarrow>
               (case kk of NumberThrows \<Rightarrow> Inl (Uncaught TypeError) | _ \<Rightarrow> Inl InvalidKeys)
           | IntegerNumber n \<Rightarrow>
               (case kk of
                  NumberThrows \<Rightarrow> Inl (Uncaught TypeError)
                | OtherNumber \<Rightarrow> Inl InvalidKeys
                | IntegerNumber k \<Rightarrow>
                    if k \<le> 0 then Inl InvalidKeys
                    else case collect Number_int (props d) [] of
                           Inl e \<Rightarrow> Inl (Uncaught e)
                         | Inr entries \<Rightarrow>
                             if int (length entries) < k
                             then Inl (NotEnoughPoints (length entries) k)
                             else case lagrangeAtZero (chosen k entries) of
                                    Inl e \<Rightarrow> Inl (ErrorComputingSecret e)
                                  | Inr f0 \<Rightarrow>
                                      (case toIntegerStringIfExact f0 of
                                         Inl e \<Rightarrow> Inl (ErrorComputingSecret e)
                                       | Inr secret \<Rightarrow> Inr secret))))"

text \<open>
  One admissible \<open>Number_int\<close>, for running examples: on a decimal numeral of at most 15
  digits \<open>Number\<close> returns exactly the integer it denotes.  It is not applied to any
  other string below.
\<close>

definition decimalNumber :: "string \<Rightarrow> int option" where
  "decimalNumber s =
     (if length s \<le> 15 \<and> list_all (\<lambda>c. 48 \<le> (of_char c :: int) \<and> (of_char c :: int) \<le> 57) s
      then digits_value 10 s else None)"

subsection \<open>Reference notions of the specification\<close>

text \<open>
  The value of an integer-coefficient polynomial, coefficients in ascending order of
  degree: \<open>poly_eval [c0, c1, c2] t = c0 + c1 * t + c2 * t\<^sup>2\<close>.
\<close>

fun poly_eval :: "int list \<Rightarrow> int \<Rightarrow> int" where
  "poly_eval [] t = 0"
| "poly_eval (c # cs) t = c + t * poly_eval cs t"

text \<open>The rational number a fraction denotes.\<close>

definition fraction_value :: "fraction \<Rightarrow> real" where
  "fraction_value f = real_of_int (num f) / real_of_int (den f)"

text \<open>
  The Lagrange form the evaluator follows: the factor contributed to the \<open>i\<close>-th term by
  the index \<open>j\<close> at the evaluation point \<open>t\<close>, and the interpolating function.  At \<open>t = 0\<close>
  the factor is \<open>(-x\<^sub>j) / (x\<^sub>i - x\<^sub>j)\<close>.
\<close>

definition basis_factor :: "point list \<Rightarrow> nat \<Rightarrow> nat \<Rightarrow> real \<Rightarrow> real" where
  "basis_factor points i j t =
     (if j = i then 1
      else (t - real_of_int (x (points ! j))) / real_of_int (x (points ! i) - x (points ! j)))"

definition interpolant :: "point list \<Rightarrow> real \<Rightarrow> real" where
  "interpolant points t =
     (\<Sum>i\<leftarrow>[0..<length points].
        real_of_int (y (points ! i)) * (\<Prod>j\<leftarrow>[0..<length points]. basis_factor points i j t))"

text \<open>Two positions of the sequence carry the same \<open>x\<close>.\<close>

definition duplicate_x :: "point list \<Rightarrow> bool" where
  "duplicate_x points \<longleftrightarrow>
     (\<exists>i\<in>{0..<length points}. \<exists>j\<in>{0..<length points}.
        i \<noteq> j \<and> x (points ! i) = x (points ! j))"

definition dup_at :: "point list \<Rightarrow> nat \<Rightarrow> bool" where
  "dup_at points i \<longleftrightarrow>
     (\<exists>j\<in>{0..<length points}. i \<noteq> j \<and> x (points ! i) = x (points ! j))"

text \<open>A real function that is a polynomial of degree at most \<open>n\<close>.\<close>

definition is_poly :: "nat \<Rightarrow> (real \<Rightarrow> real) \<Rightarrow> bool" where
  "is_poly n f \<longleftrightarrow> (\<exists>c. \<forall>t. f t = (\<Sum>i\<le>n. c i * t ^ i))"

text \<open>\<open>poly_eval\<close> at a real argument.\<close>

fun poly_eval_real :: "int list \<Rightarrow> real \<Rightarrow> real" where
  "poly_eval_real [] t = 0"
| "poly_eval_real (c # cs) t = real_of_int c + t * poly_eval_real cs t"


text \<open>The second test case of the README, in the order of \<open>Object.keys\<close>.\<close>

definition scenario_B :: data where
  "scenario_B =
     \<lparr>keys = Keys (IntegerNumber 4) (IntegerNumber 3),
      props =
        [(''1'', Object (Stringifies ''10'') (Stringifies ''4'')),
         (''2'', Object (Stringifies ''2'') (Stringifies ''111'')),
         (''3'', Object (Stringifies ''10'') (Stringifies ''12'')),
         (''6'', Object (Stringifies ''4'') (Stringifies ''213'')),
         (''keys'', Object Missing Missing)]\<rparr>"

text \<open>The entries of \<open>data\<close> that the collection loop does not pass over.\<close>

definition collected :: "(string \<times> jsvalue) list \<Rightarrow> (string \<times> jsvalue) list" where
  "collected ps = filter (\<lambda>p. fst p \<noteq> ''keys'' \<and> \<not> skipped (snd p)) ps"

text \<open>
  An entry of the array \<open>entries\<close> is the point decoded from a property of \<open>data\<close>: the
  property has both fields, its key converts to \<open>x\<close>, both fields convert to strings and
  the value decodes to \<open>y\<close>.
\<close>

definition decoded_from :: "(string \<Rightarrow> int option) \<Rightarrow> entry \<Rightarrow> string \<times> jsvalue \<Rightarrow> bool" where
  "decoded_from Number_int e p \<longleftrightarrow>
     rawKey e = fst p \<and> has_base (snd p) \<and> has_value (snd p)
     \<and> BigInt_of_string (fst p) = Inr (x e)
     \<and> (case String_value (snd p) of
          Inl err \<Rightarrow> False
        | Inr valueStr \<Rightarrow>
            (case String_base (snd p) of
               Inl err \<Rightarrow> False
             | Inr baseStr \<Rightarrow> decodeValueToBigInt Number_int valueStr baseStr = Inr (y e)))"

text \<open>
  The usable points of the input: the entries not passed over whose key converts and
  whose value decodes.
\<close>

definition decodes :: "(string \<Rightarrow> int option) \<Rightarrow> string \<times> jsvalue \<Rightarrow> bool" where
  "decodes Number_int p =
     (case entry_of Number_int (fst p) (snd p) of Inl e \<Rightarrow> False | Inr en \<Rightarrow> True)"

definition usable :: "(string \<Rightarrow> int option) \<Rightarrow> (string \<times> jsvalue) list \<Rightarrow> (string \<times> jsvalue) list" where
  "usable Number_int ps = filter (decodes Number_int) (collected ps)"

section \<open>Properties\<close>

subsection \<open>bigGcd and the Fraction constructor\<close>

lemma smod_nonneg_eq_mod: "0 \<le> a \<Longrightarrow> 0 \<le> b \<Longrightarrow> (a::int) smod b = a mod b"
  by (cases "a = 0") (simp_all add: signed_modulo_int_def)

lemma bigGcd_loop_gcd: "0 \<le> a \<Longrightarrow> 0 \<le> b \<Longrightarrow> bigGcd_loop a b = gcd a b"
proof (induction a b rule: bigGcd_loop.induct)
  case (1 a b)
  show ?case
  proof (cases "b = 0")
    case True
    with "1.prems" show ?thesis by (simp add: bigGcd_loop.simps [of a 0])
  next
    case False
    with "1.prems" have m: "a smod b = a mod b" and nn: "0 \<le> a mod b"
      by (simp_all add: smod_nonneg_eq_mod)
    from False have "bigGcd_loop a b = bigGcd_loop b (a smod b)"
      by (simp add: bigGcd_loop.simps [of a b])
    also have "\<dots> = gcd b (a smod b)"
      using "1.IH" [OF False] "1.prems" m nn by simp
    also have "\<dots> = gcd a b"
      using gcd_red_int [of a b] by (simp add: m)
    finally show ?thesis .
  qed
qed

lemma bigGcd_gcd: "bigGcd a b = gcd a b"
proof -
  have "bigGcd a b = gcd \<bar>a\<bar> \<bar>b\<bar>"
    unfolding bigGcd_def by (subst bigGcd_loop_gcd) (auto simp: abs_if)
  then show ?thesis by simp
qed

lemma sdiv_exact: "g dvd a \<Longrightarrow> (a::int) sdiv g = a div g"
  by (simp add: signed_divide_int_eq_divide_int)

lemma Fraction_eq:
  assumes "d \<noteq> 0"
  shows "Fraction n d = Inr \<lparr>num = (sgn d * n) div gcd n d, den = \<bar>d\<bar> div gcd n d\<rparr>"
proof (cases "d < 0")
  case True
  have g: "gcd (- n) (- d) = gcd n d" by simp
  from True assms have "gcd n d \<noteq> 0" by simp
  with True assms show ?thesis
    by (simp add: Fraction_def bigGcd_gcd bigDiv_def sdiv_exact Let_def dvd_neg_div)
next
  case False
  with assms have "0 < d" by simp
  with assms show ?thesis
    by (simp add: Fraction_def bigGcd_gcd bigDiv_def sdiv_exact Let_def)
qed

lemma Fraction_error: "Fraction n 0 = Inl DenominatorZero"
  by (simp add: Fraction_def)

lemma Fraction_props:
  assumes "d \<noteq> 0"
  obtains f where "Fraction n d = Inr f" "reduced f"
    "fraction_value f = real_of_int n / real_of_int d"
proof -
  let ?g = "gcd n d"
  let ?f = "\<lparr>num = (sgn d * n) div ?g, den = \<bar>d\<bar> div ?g\<rparr>"
  have gpos: "0 < ?g" using assms by (simp add: gcd_pos_int)
  have gn: "?g dvd sgn d * n" by simp
  have gd: "?g dvd \<bar>d\<bar>" by simp
  have 1: "Fraction n d = Inr ?f" by (rule Fraction_eq [OF assms])
  have dpos: "0 < \<bar>d\<bar> div ?g"
    using assms gd gpos by (simp add: pos_imp_zdiv_pos_iff zdvd_imp_le)
  have "gcd ((sgn d * n) div ?g) (\<bar>d\<bar> div ?g) = 1"
  proof -
    have "gcd (sgn d * n) \<bar>d\<bar> = ?g"
      using assms by (cases "d < 0") (simp_all)
    moreover have "sgn d * n \<noteq> 0 \<or> \<bar>d\<bar> \<noteq> 0" using assms by simp
    ultimately show ?thesis using div_gcd_coprime [of "sgn d * n" "\<bar>d\<bar>"] by (simp add: coprime_iff_gcd_eq_1)
  qed
  then have 2: "reduced ?f" using dpos by (simp add: reduced_def)
  have "real_of_int ((sgn d * n) div ?g) / real_of_int (\<bar>d\<bar> div ?g)
      = real_of_int (sgn d * n) / real_of_int \<bar>d\<bar>"
    using gn gd gpos by (simp add: real_of_int_div)
  also have "\<dots> = real_of_int n / real_of_int d"
    using assms by (cases "d < 0") simp_all
  finally have 3: "fraction_value ?f = real_of_int n / real_of_int d"
    by (simp add: fraction_value_def)
  from 1 2 3 show thesis by (rule that)
qed

lemma smod_eq_0_iff_dvd: "b \<noteq> 0 \<Longrightarrow> (a::int) smod b = 0 \<longleftrightarrow> b dvd a"
  by (cases "a = 0") (auto simp add: signed_modulo_int_def mod_eq_0_iff_dvd sgn_if)

text \<open>
  C2: the constructor, given a non-zero denominator, and \<open>add\<close>, \<open>sub\<close>, \<open>mul\<close> and \<open>div\<close>,
  given operands that satisfy the invariant (and a non-zero divisor), return a fraction with
  a strictly positive denominator and \<open>gcd(|numerator|, denominator) = 1\<close>; a fraction that
  satisfies the invariant and has numerator 0 has denominator 1.  The only failures are the
  zero denominator of the constructor and the zero divisor of \<open>div\<close>.
\<close>

theorem Fraction_operations_reduced:
  assumes "reduced a" and "reduced b"
  shows "(d = 0 \<longrightarrow> Fraction n d = Inl DenominatorZero)
       \<and> (d \<noteq> 0 \<longrightarrow> (\<exists>f. Fraction n d = Inr f \<and> reduced f))
       \<and> (\<exists>f. Fraction_add a b = Inr f \<and> reduced f)
       \<and> (\<exists>f. Fraction_sub a b = Inr f \<and> reduced f)
       \<and> (\<exists>f. Fraction_mul a b = Inr f \<and> reduced f)
       \<and> (num b = 0 \<longrightarrow> Fraction_div a b = Inl DivisionByZeroFraction)
       \<and> (num b \<noteq> 0 \<longrightarrow> (\<exists>f. Fraction_div a b = Inr f \<and> reduced f))
       \<and> (\<forall>f. reduced f \<and> num f = 0 \<longrightarrow> den f = 1)"
proof -
  have ctor: "\<exists>f. Fraction m e = Inr f \<and> reduced f" if "e \<noteq> 0" for m e
    using that by (rule Fraction_props) blast
  from assms have dd: "den a * den b \<noteq> 0"
    by (simp add: reduced_def)
  have zero: "den f = 1" if "reduced f" "num f = 0" for f
    using that by (auto simp: reduced_def)
  show ?thesis
  proof (intro conjI impI allI)
    show "Fraction n d = Inl DenominatorZero" if "d = 0"
      using that by (simp add: Fraction_error)
    show "\<exists>f. Fraction n d = Inr f \<and> reduced f" if "d \<noteq> 0"
      using that by (rule ctor)
    show "\<exists>f. Fraction_add a b = Inr f \<and> reduced f"
      unfolding Fraction_add_def by (rule ctor [OF dd])
    show "\<exists>f. Fraction_sub a b = Inr f \<and> reduced f"
      unfolding Fraction_sub_def by (rule ctor [OF dd])
    show "\<exists>f. Fraction_mul a b = Inr f \<and> reduced f"
      unfolding Fraction_mul_def by (rule ctor [OF dd])
    show "Fraction_div a b = Inl DivisionByZeroFraction" if "num b = 0"
      using that by (simp add: Fraction_div_def)
    show "\<exists>f. Fraction_div a b = Inr f \<and> reduced f" if "num b \<noteq> 0"
    proof -
      from assms that have "den a * num b \<noteq> 0" by (simp add: reduced_def)
      then show ?thesis using that by (simp add: Fraction_div_def ctor)
    qed
    show "den f = 1" if "reduced f \<and> num f = 0" for f
      using that zero by blast
  qed
qed

theorem Fraction_operations_reduced_witness:
  "reduced \<lparr>num = 1, den = 2\<rparr> \<and> reduced \<lparr>num = - 3, den = 4\<rparr>
   \<and> (\<exists>f. Fraction 6 (- 4) = Inr f \<and> reduced f)
   \<and> (\<exists>f. Fraction_add \<lparr>num = 1, den = 2\<rparr> \<lparr>num = - 3, den = 4\<rparr> = Inr f \<and> reduced f)
   \<and> (\<exists>f. Fraction_sub \<lparr>num = 1, den = 2\<rparr> \<lparr>num = - 3, den = 4\<rparr> = Inr f \<and> reduced f)
   \<and> (\<exists>f. Fraction_mul \<lparr>num = 1, den = 2\<rparr> \<lparr>num = - 3, den = 4\<rparr> = Inr f \<and> reduced f)
   \<and> (\<exists>f. Fraction_div \<lparr>num = 1, den = 2\<rparr> \<lparr>num = - 3, den = 4\<rparr> = Inr f \<and> reduced f)
   \<and> Fraction 6 0 = Inl DenominatorZero
   \<and> Fraction_div \<lparr>num = 1, den = 2\<rparr> \<lparr>num = 0, den = 1\<rparr> = Inl DivisionByZeroFraction
   \<and> den \<lparr>num = 0, den = 1\<rparr> = 1"
proof -
  have a: "reduced \<lparr>num = 1, den = 2\<rparr>" by (simp add: reduced_def)
  have b: "reduced \<lparr>num = - 3, den = 4\<rparr>" by code_simp
  have z: "reduced \<lparr>num = 0, den = 1\<rparr>" by (simp add: reduced_def)
  note t = Fraction_operations_reduced [OF a b, where d = "- 4" and n = 6]
  note u = Fraction_operations_reduced [OF a z, where d = 0 and n = 6]
  have 1: "\<exists>f. Fraction 6 (- 4) = Inr f \<and> reduced f" using t by simp
  have 2: "\<exists>f. Fraction_add \<lparr>num = 1, den = 2\<rparr> \<lparr>num = - 3, den = 4\<rparr> = Inr f \<and> reduced f"
    using t by blast
  have 3: "\<exists>f. Fraction_sub \<lparr>num = 1, den = 2\<rparr> \<lparr>num = - 3, den = 4\<rparr> = Inr f \<and> reduced f"
    using t by blast
  have 4: "\<exists>f. Fraction_mul \<lparr>num = 1, den = 2\<rparr> \<lparr>num = - 3, den = 4\<rparr> = Inr f \<and> reduced f"
    using t by blast
  have 5: "\<exists>f. Fraction_div \<lparr>num = 1, den = 2\<rparr> \<lparr>num = - 3, den = 4\<rparr> = Inr f \<and> reduced f"
    using t by simp
  have 6: "Fraction 6 0 = Inl DenominatorZero" using u by simp
  have 7: "Fraction_div \<lparr>num = 1, den = 2\<rparr> \<lparr>num = 0, den = 1\<rparr> = Inl DivisionByZeroFraction"
    using u by simp
  have 8: "den \<lparr>num = 0, den = 1\<rparr> = 1" using u z by simp
  from a b 1 2 3 4 5 6 7 8 show ?thesis by blast
qed

subsection \<open>toIntegerStringIfExact\<close>

text \<open>
  C4: for a fraction with a non-zero denominator, \<open>toIntegerStringIfExact\<close> returns the
  decimal string of the quotient when the denominator is 1 or divides the numerator, and
  otherwise fails with the error that carries \<open>numerator/denominator\<close>; whenever it returns
  a string, the quotient it prints is exactly the value of the fraction.
\<close>

theorem toIntegerStringIfExact_exact:
  assumes "den f \<noteq> 0"
  shows "toIntegerStringIfExact f =
           (if den f = 1 \<or> den f dvd num f then Inr (BigInt_toString (num f div den f))
            else Inl (ResultNotInteger (BigInt_toString (num f) @ ''/'' @ BigInt_toString (den f))))
       \<and> (\<forall>s. toIntegerStringIfExact f = Inr s \<longrightarrow>
             real_of_int (num f) / real_of_int (den f) = real_of_int (num f div den f)
             \<and> s = BigInt_toString (num f div den f))"
proof -
  have 1: "toIntegerStringIfExact f =
           (if den f = 1 \<or> den f dvd num f then Inr (BigInt_toString (num f div den f))
            else Inl (ResultNotInteger (BigInt_toString (num f) @ ''/'' @ BigInt_toString (den f))))"
  proof (cases "den f = 1")
    case True
    then show ?thesis by (simp add: toIntegerStringIfExact_def)
  next
    case one: False
    show ?thesis
    proof (cases "den f dvd num f")
      case True
      then have "num f smod den f = 0" "num f sdiv den f = num f div den f"
        using assms by (simp_all add: smod_eq_0_iff_dvd sdiv_exact)
      with one True assms show ?thesis
        by (simp add: toIntegerStringIfExact_def bigRem_def bigDiv_def)
    next
      case False
      then have "num f smod den f \<noteq> 0"
        using assms by (simp add: smod_eq_0_iff_dvd)
      with one False assms show ?thesis
        by (simp add: toIntegerStringIfExact_def bigRem_def Fraction_toString_def)
    qed
  qed
  have 2: "real_of_int (num f) / real_of_int (den f) = real_of_int (num f div den f)"
    if "den f = 1 \<or> den f dvd num f"
    using that by (auto simp: real_of_int_div)
  show ?thesis
  proof (cases "den f = 1 \<or> den f dvd num f")
    case True
    with 1 2 show ?thesis by auto
  next
    case False
    with 1 show ?thesis by auto
  qed
qed

theorem toIntegerStringIfExact_exact_witness:
  "den \<lparr>num = - 6, den = 3\<rparr> \<noteq> 0 \<and> toIntegerStringIfExact \<lparr>num = - 6, den = 3\<rparr> = Inr ''-2''
   \<and> toIntegerStringIfExact \<lparr>num = 7, den = 1\<rparr> = Inr ''7''
   \<and> toIntegerStringIfExact \<lparr>num = 2, den = 3\<rparr> = Inl (ResultNotInteger ''2/3'')"
proof -
  have s: "BigInt_toString (- 2) = ''-2''" "BigInt_toString 7 = ''7''"
    "BigInt_toString 2 = ''2''" "BigInt_toString 3 = ''3''"
    by code_simp+
  have h1: "den \<lparr>num = - 6, den = 3\<rparr> \<noteq> 0" by simp
  have h2: "den \<lparr>num = 7, den = 1\<rparr> \<noteq> 0" by simp
  have h3: "den \<lparr>num = 2, den = 3\<rparr> \<noteq> 0" by simp
  have "toIntegerStringIfExact \<lparr>num = - 6, den = 3\<rparr> = Inr (BigInt_toString (- 2))"
    by (simp add: toIntegerStringIfExact_exact [OF h1, THEN conjunct1])
  then have 1: "toIntegerStringIfExact \<lparr>num = - 6, den = 3\<rparr> = Inr ''-2''"
    by (simp only: s)
  have "toIntegerStringIfExact \<lparr>num = 7, den = 1\<rparr> = Inr (BigInt_toString 7)"
    by (simp add: toIntegerStringIfExact_exact [OF h2, THEN conjunct1])
  then have 2: "toIntegerStringIfExact \<lparr>num = 7, den = 1\<rparr> = Inr ''7''"
    by (simp only: s)
  have "toIntegerStringIfExact \<lparr>num = 2, den = 3\<rparr>
      = Inl (ResultNotInteger (BigInt_toString 2 @ ''/'' @ BigInt_toString 3))"
    by (simp add: toIntegerStringIfExact_exact [OF h3, THEN conjunct1])
  then have 3: "toIntegerStringIfExact \<lparr>num = 2, den = 3\<rparr> = Inl (ResultNotInteger ''2/3'')"
    by (simp add: s)
  from h1 1 2 3 show ?thesis by blast
qed

subsection \<open>lagrangeAtZero\<close>

text \<open>
  C10: on the empty sequence of points \<open>lagrangeAtZero\<close> returns the fraction \<open>0/1\<close>.
\<close>

theorem lagrangeAtZero_empty: "lagrangeAtZero [] = Inr \<lparr>num = 0, den = 1\<rparr>"
  by code_simp

lemma Fraction_mul_value:
  assumes "reduced a" and "reduced b"
  obtains f where "Fraction_mul a b = Inr f" "reduced f"
    "fraction_value f = fraction_value a * fraction_value b"
proof -
  from assms have "den a * den b \<noteq> 0" by (simp add: reduced_def)
  then obtain f where f: "Fraction (num a * num b) (den a * den b) = Inr f" "reduced f"
    "fraction_value f = real_of_int (num a * num b) / real_of_int (den a * den b)"
    by (rule Fraction_props)
  from f(3) have "fraction_value f = fraction_value a * fraction_value b"
    by (simp add: fraction_value_def)
  with f(1,2) show thesis by (intro that) (simp_all add: Fraction_mul_def)
qed

lemma Fraction_add_value:
  assumes "reduced a" and "reduced b"
  obtains f where "Fraction_add a b = Inr f" "reduced f"
    "fraction_value f = fraction_value a + fraction_value b"
proof -
  from assms have nz: "den a \<noteq> 0" "den b \<noteq> 0" by (simp_all add: reduced_def)
  then have "den a * den b \<noteq> 0" by simp
  then obtain f where f: "Fraction (num a * den b + num b * den a) (den a * den b) = Inr f"
    "reduced f"
    "fraction_value f
       = real_of_int (num a * den b + num b * den a) / real_of_int (den a * den b)"
    by (rule Fraction_props)
  from f(3) nz have "fraction_value f = fraction_value a + fraction_value b"
    by (simp add: fraction_value_def field_simps)
  with f(1,2) show thesis by (intro that) (simp_all add: Fraction_add_def)
qed

lemma product_loop_value:
  assumes "reduced nm" and "\<forall>j\<in>set js. j \<noteq> i \<longrightarrow> x (ps ! i) \<noteq> x (ps ! j)"
  shows "\<exists>f. product_loop ps i js nm = Inr f \<and> reduced f
            \<and> fraction_value f = fraction_value nm * (\<Prod>j\<leftarrow>js. basis_factor ps i j 0)"
  using assms
proof (induction js arbitrary: nm)
  case Nil
  then show ?case by simp
next
  case (Cons j js)
  show ?case
  proof (cases "j = i")
    case True
    with Cons show ?thesis by (simp add: basis_factor_def)
  next
    case False
    with Cons.prems have d: "x (ps ! i) - x (ps ! j) \<noteq> 0" by simp
    then obtain g where g: "Fraction (- x (ps ! j)) (x (ps ! i) - x (ps ! j)) = Inr g"
      "reduced g"
      "fraction_value g = real_of_int (- x (ps ! j)) / real_of_int (x (ps ! i) - x (ps ! j))"
      by (rule Fraction_props)
    from Cons.prems(1) g(2) obtain m where m: "Fraction_mul nm g = Inr m" "reduced m"
      "fraction_value m = fraction_value nm * fraction_value g"
      by (rule Fraction_mul_value)
    from Cons.prems have "\<forall>j\<in>set js. j \<noteq> i \<longrightarrow> x (ps ! i) \<noteq> x (ps ! j)" by simp
    from Cons.IH [OF m(2) this] obtain f where f: "product_loop ps i js m = Inr f" "reduced f"
      "fraction_value f = fraction_value m * (\<Prod>j\<leftarrow>js. basis_factor ps i j 0)"
      by blast
    have "product_loop ps i (j # js) nm = Inr f"
      using False d g(1) m(1) f(1) by (simp add: Let_def)
    moreover have "fraction_value f
        = fraction_value nm * (\<Prod>j\<leftarrow>j # js. basis_factor ps i j 0)"
      using False f(3) m(3) g(3) by (simp add: basis_factor_def)
    ultimately show ?thesis using f(2) by blast
  qed
qed

lemma product_loop_duplicate:
  assumes "reduced nm" and "\<exists>j\<in>set js. j \<noteq> i \<and> x (ps ! i) = x (ps ! j)"
  shows "product_loop ps i js nm = Inl DuplicateXValues"
  using assms
proof (induction js arbitrary: nm)
  case Nil
  then show ?case by simp
next
  case (Cons j js)
  show ?case
  proof (cases "j \<noteq> i \<and> x (ps ! i) = x (ps ! j)")
    case True
    then show ?thesis by (simp add: Let_def)
  next
    case False
    with Cons.prems have rest: "\<exists>j\<in>set js. j \<noteq> i \<and> x (ps ! i) = x (ps ! j)" by auto
    show ?thesis
    proof (cases "j = i")
      case True
      with Cons.IH [OF Cons.prems(1) rest] show ?thesis by simp
    next
      case ne: False
      with False have d: "x (ps ! i) - x (ps ! j) \<noteq> 0" by simp
      then obtain g where g: "Fraction (- x (ps ! j)) (x (ps ! i) - x (ps ! j)) = Inr g"
        "reduced g"
        by (rule Fraction_props)
      from Cons.prems(1) g(2) obtain m where m: "Fraction_mul nm g = Inr m" "reduced m"
        by (rule Fraction_mul_value)
      from Cons.IH [OF m(2) rest] ne d g(1) m(1) show ?thesis by (simp add: Let_def)
    qed
  qed
qed

lemma sum_loop_value:
  assumes "reduced r" and "\<forall>i\<in>set is. \<not> dup_at ps i"
  shows "\<exists>f. sum_loop ps is r = Inr f \<and> reduced f
            \<and> fraction_value f = fraction_value r
                + (\<Sum>i\<leftarrow>is. real_of_int (y (ps ! i)) * (\<Prod>j\<leftarrow>[0..<length ps]. basis_factor ps i j 0))"
  using assms
proof (induction "is" arbitrary: r)
  case Nil
  then show ?case by simp
next
  case (Cons i "is")
  obtain n0 where n0: "Fraction (y (ps ! i)) 1 = Inr n0" "reduced n0"
    "fraction_value n0 = real_of_int (y (ps ! i)) / real_of_int 1"
    by (rule Fraction_props [of 1 "y (ps ! i)"]) simp
  from Cons.prems(2) have "\<forall>j\<in>set [0..<length ps]. j \<noteq> i \<longrightarrow> x (ps ! i) \<noteq> x (ps ! j)"
    by (auto simp: dup_at_def)
  from product_loop_value [OF n0(2) this]
  obtain nm where nm: "product_loop ps i [0..<length ps] n0 = Inr nm" "reduced nm"
    "fraction_value nm = fraction_value n0 * (\<Prod>j\<leftarrow>[0..<length ps]. basis_factor ps i j 0)"
    by blast
  from Cons.prems(1) nm(2) obtain r' where r': "Fraction_add r nm = Inr r'" "reduced r'"
    "fraction_value r' = fraction_value r + fraction_value nm"
    by (rule Fraction_add_value)
  from Cons.prems(2) have "\<forall>i\<in>set is. \<not> dup_at ps i" by simp
  from Cons.IH [OF r'(2) this] obtain f where f: "sum_loop ps is r' = Inr f" "reduced f"
    "fraction_value f = fraction_value r'
       + (\<Sum>i\<leftarrow>is. real_of_int (y (ps ! i)) * (\<Prod>j\<leftarrow>[0..<length ps]. basis_factor ps i j 0))"
    by blast
  have "sum_loop ps (i # is) r = Inr f"
    using n0(1) nm(1) r'(1) f(1) by simp
  moreover have "fraction_value f = fraction_value r
       + (\<Sum>i\<leftarrow>i # is. real_of_int (y (ps ! i)) * (\<Prod>j\<leftarrow>[0..<length ps]. basis_factor ps i j 0))"
    using f(3) r'(3) nm(3) n0(3) by simp
  ultimately show ?case using f(2) by blast
qed

lemma sum_loop_duplicate:
  assumes "reduced r" and "\<exists>i\<in>set is. dup_at ps i"
  shows "sum_loop ps is r = Inl DuplicateXValues"
  using assms
proof (induction "is" arbitrary: r)
  case Nil
  then show ?case by simp
next
  case (Cons i "is")
  obtain n0 where n0: "Fraction (y (ps ! i)) 1 = Inr n0" "reduced n0"
    by (rule Fraction_props [of 1 "y (ps ! i)"]) simp
  show ?case
  proof (cases "dup_at ps i")
    case True
    then have "\<exists>j\<in>set [0..<length ps]. j \<noteq> i \<and> x (ps ! i) = x (ps ! j)"
      by (auto simp: dup_at_def)
    from product_loop_duplicate [OF n0(2) this] n0(1) show ?thesis by simp
  next
    case False
    with Cons.prems have rest: "\<exists>i\<in>set is. dup_at ps i" by auto
    from False have "\<forall>j\<in>set [0..<length ps]. j \<noteq> i \<longrightarrow> x (ps ! i) \<noteq> x (ps ! j)"
      by (auto simp: dup_at_def)
    from product_loop_value [OF n0(2) this]
    obtain nm where nm: "product_loop ps i [0..<length ps] n0 = Inr nm" "reduced nm"
      by blast
    from Cons.prems(1) nm(2) obtain r' where r': "Fraction_add r nm = Inr r'" "reduced r'"
      by (rule Fraction_add_value)
    from Cons.IH [OF r'(2) rest] n0(1) nm(1) r'(1) show ?thesis by simp
  qed
qed

lemma zero_fraction: "Fraction 0 1 = Inr \<lparr>num = 0, den = 1\<rparr>"
  by code_simp

lemma reduced_zero: "reduced \<lparr>num = 0, den = 1\<rparr>"
  by (simp add: reduced_def)

lemma duplicate_x_iff: "duplicate_x ps \<longleftrightarrow> (\<exists>i\<in>set [0..<length ps]. dup_at ps i)"
  by (simp add: duplicate_x_def dup_at_def)

lemma lagrangeAtZero_value:
  assumes "\<not> duplicate_x ps"
  shows "\<exists>f. lagrangeAtZero ps = Inr f \<and> reduced f \<and> fraction_value f = interpolant ps 0"
proof -
  from assms have "\<forall>i\<in>set [0..<length ps]. \<not> dup_at ps i"
    by (simp add: duplicate_x_iff)
  from sum_loop_value [OF reduced_zero this] show ?thesis
    by (simp add: lagrangeAtZero_def zero_fraction interpolant_def fraction_value_def)
qed

text \<open>
  C5: \<open>lagrangeAtZero\<close> fails with the duplicate-x error exactly when two different
  positions of the input carry the same \<open>x\<close>; when no two positions do, it returns a
  fraction.
\<close>

theorem lagrangeAtZero_duplicate_iff:
  "(lagrangeAtZero ps = Inl DuplicateXValues \<longleftrightarrow> duplicate_x ps)
   \<and> (\<not> duplicate_x ps \<longrightarrow> (\<exists>f. lagrangeAtZero ps = Inr f))"
proof -
  have 1: "lagrangeAtZero ps = Inl DuplicateXValues" if "duplicate_x ps"
  proof -
    from that have "\<exists>i\<in>set [0..<length ps]. dup_at ps i" by (simp add: duplicate_x_iff)
    from sum_loop_duplicate [OF reduced_zero this] show ?thesis
      by (simp add: lagrangeAtZero_def zero_fraction)
  qed
  have 2: "\<exists>f. lagrangeAtZero ps = Inr f" if "\<not> duplicate_x ps"
    using lagrangeAtZero_value [OF that] by blast
  from 1 2 show ?thesis by (cases "duplicate_x ps") auto
qed


theorem lagrangeAtZero_duplicate_iff_witness:
  "\<not> duplicate_x [\<lparr>x = 1, y = 4\<rparr>, \<lparr>x = 2, y = 7\<rparr>, \<lparr>x = 3, y = 12\<rparr>]
   \<and> (\<exists>f. lagrangeAtZero [\<lparr>x = 1, y = 4\<rparr>, \<lparr>x = 2, y = 7\<rparr>, \<lparr>x = 3, y = 12\<rparr>] = Inr f)
   \<and> duplicate_x [\<lparr>x = 1, y = 4\<rparr>, \<lparr>x = 2, y = 7\<rparr>, \<lparr>x = 1, y = 12\<rparr>]
   \<and> lagrangeAtZero [\<lparr>x = 1, y = 4\<rparr>, \<lparr>x = 2, y = 7\<rparr>, \<lparr>x = 1, y = 12\<rparr>]
       = Inl DuplicateXValues"
proof -
  have a: "\<not> duplicate_x [\<lparr>x = 1, y = 4\<rparr>, \<lparr>x = 2, y = 7\<rparr>, \<lparr>x = 3, y = 12\<rparr>]"
    by code_simp
  have b: "duplicate_x [\<lparr>x = 1, y = 4\<rparr>, \<lparr>x = 2, y = 7\<rparr>, \<lparr>x = 1, y = 12\<rparr>]"
    by code_simp
  note t = lagrangeAtZero_duplicate_iff
    [of "[\<lparr>x = 1, y = 4\<rparr>, \<lparr>x = 2, y = 7\<rparr>, \<lparr>x = 3, y = 12\<rparr>]"]
  note u = lagrangeAtZero_duplicate_iff
    [of "[\<lparr>x = 1, y = 4\<rparr>, \<lparr>x = 2, y = 7\<rparr>, \<lparr>x = 1, y = 12\<rparr>]"]
  from t a have 1: "\<exists>f. lagrangeAtZero [\<lparr>x = 1, y = 4\<rparr>, \<lparr>x = 2, y = 7\<rparr>, \<lparr>x = 3, y = 12\<rparr>] = Inr f"
    by blast
  from u b have 2: "lagrangeAtZero [\<lparr>x = 1, y = 4\<rparr>, \<lparr>x = 2, y = 7\<rparr>, \<lparr>x = 1, y = 12\<rparr>]
       = Inl DuplicateXValues"
    by blast
  from a b 1 2 show ?thesis by blast
qed

subsection \<open>Interpolation at the sample points\<close>

lemma is_polyI: "(\<And>t. f t = (\<Sum>i\<le>n. c i * t ^ i)) \<Longrightarrow> is_poly n f"
  unfolding is_poly_def by blast

lemma is_poly_const: "is_poly n (\<lambda>t. a)"
proof -
  have "a = (\<Sum>i\<le>n. (if i = 0 then a else 0) * t ^ i)" for t :: real
    by (induction n) simp_all
  then show ?thesis by (rule is_polyI)
qed

lemma is_poly_add:
  assumes "is_poly n f" and "is_poly n g"
  shows "is_poly n (\<lambda>t. f t + g t)"
proof -
  from assms obtain c d where c: "\<And>t. f t = (\<Sum>i\<le>n. c i * t ^ i)"
    and d: "\<And>t. g t = (\<Sum>i\<le>n. d i * t ^ i)"
    unfolding is_poly_def by blast
  have "f t + g t = (\<Sum>i\<le>n. (c i + d i) * t ^ i)" for t
    by (simp add: c d sum.distrib distrib_right)
  then show ?thesis by (rule is_polyI)
qed

lemma is_poly_scale:
  assumes "is_poly n f"
  shows "is_poly n (\<lambda>t. a * f t)"
proof -
  from assms obtain c where c: "\<And>t. f t = (\<Sum>i\<le>n. c i * t ^ i)"
    unfolding is_poly_def by blast
  have "a * f t = (\<Sum>i\<le>n. (a * c i) * t ^ i)" for t
    by (simp add: c sum_distrib_left mult.assoc)
  then show ?thesis by (rule is_polyI)
qed

lemma is_poly_Suc:
  assumes "is_poly n f"
  shows "is_poly (Suc n) f"
proof -
  from assms obtain c where c: "\<And>t. f t = (\<Sum>i\<le>n. c i * t ^ i)"
    unfolding is_poly_def by blast
  have "f t = (\<Sum>i\<le>Suc n. (if i \<le> n then c i else 0) * t ^ i)" for t
    by (simp add: c)
  then show ?thesis by (rule is_polyI)
qed

lemma is_poly_times_var:
  assumes "is_poly n f"
  shows "is_poly (Suc n) (\<lambda>t. t * f t)"
proof -
  from assms obtain c where c: "\<And>t. f t = (\<Sum>i\<le>n. c i * t ^ i)"
    unfolding is_poly_def by blast
  have "t * f t = (\<Sum>i\<le>Suc n. (if i = 0 then 0 else c (i - 1)) * t ^ i)" for t
  proof -
    have "(\<Sum>i\<le>Suc n. (if i = 0 then 0 else c (i - 1)) * t ^ i)
        = (\<Sum>i\<le>n. c i * t ^ Suc i)"
      by (simp add: sum.atMost_Suc_shift del: sum.atMost_Suc)
    also have "\<dots> = t * (\<Sum>i\<le>n. c i * t ^ i)"
      by (simp add: sum_distrib_left ac_simps)
    finally show ?thesis by (simp add: c)
  qed
  then show ?thesis by (rule is_polyI)
qed

lemma is_poly_linear:
  assumes "is_poly n f"
  shows "is_poly (Suc n) (\<lambda>t. (t - a) * f t)"
proof -
  have "is_poly (Suc n) (\<lambda>t. t * f t + (- a) * f t)"
    by (intro is_poly_add is_poly_times_var is_poly_Suc is_poly_scale assms)
  moreover have "(\<lambda>t. t * f t + (- a) * f t) = (\<lambda>t. (t - a) * f t)"
    by (rule ext) (simp add: algebra_simps)
  ultimately show ?thesis by simp
qed

lemma is_poly_sum_list:
  assumes "\<forall>i\<in>set is. is_poly n (g i)"
  shows "is_poly n (\<lambda>t. \<Sum>i\<leftarrow>is. g i t)"
  using assms
proof (induction "is")
  case Nil
  then show ?case by (simp add: is_poly_const)
next
  case (Cons i "is")
  then show ?case by (simp add: is_poly_add)
qed

lemma poly_eval_real: "real_of_int (poly_eval cs v) = poly_eval_real cs (real_of_int v)"
  by (induction cs) simp_all

lemma is_poly_poly_eval_real: "length cs \<le> Suc n \<Longrightarrow> is_poly n (poly_eval_real cs)"
proof (induction cs arbitrary: n)
  case Nil
  have "poly_eval_real [] = (\<lambda>t. 0)" by (rule ext) simp
  then show ?case by (simp add: is_poly_const)
next
  case (Cons c cs)
  show ?case
  proof (cases "cs = []")
    case True
    then have "poly_eval_real (c # cs) = (\<lambda>t. real_of_int c)" by (intro ext) simp
    then show ?thesis by (simp add: is_poly_const)
  next
    case False
    with Cons.prems obtain m where m: "n = Suc m" "length cs \<le> Suc m"
      by (cases n) auto
    from Cons.IH [OF m(2)] have "is_poly (Suc m) (\<lambda>t. t * poly_eval_real cs t)"
      by (rule is_poly_times_var)
    then have "is_poly (Suc m) (\<lambda>t. real_of_int c + t * poly_eval_real cs t)"
      by (intro is_poly_add is_poly_const)
    moreover have "poly_eval_real (c # cs) = (\<lambda>t. real_of_int c + t * poly_eval_real cs t)"
      by (intro ext) simp
    ultimately show ?thesis using m(1) by simp
  qed
qed

lemma basis_is_poly:
  "is_poly (length (filter (\<lambda>j. j \<noteq> i) js)) (\<lambda>t. \<Prod>j\<leftarrow>js. basis_factor ps i j t)"
proof (induction js)
  case Nil
  then show ?case by (simp add: is_poly_const)
next
  case (Cons j js)
  let ?R = "\<lambda>t. \<Prod>j\<leftarrow>js. basis_factor ps i j t"
  show ?case
  proof (cases "j = i")
    case True
    with Cons show ?thesis by (simp add: basis_factor_def)
  next
    case False
    let ?d = "real_of_int (x (ps ! i) - x (ps ! j))"
    let ?n = "length (filter (\<lambda>j. j \<noteq> i) js)"
    from Cons have "is_poly (Suc ?n) (\<lambda>t. (1 / ?d) * ((t - real_of_int (x (ps ! j))) * ?R t))"
      by (intro is_poly_scale is_poly_linear)
    moreover have "(\<lambda>t. (1 / ?d) * ((t - real_of_int (x (ps ! j))) * ?R t))
        = (\<lambda>t. \<Prod>j\<leftarrow>j # js. basis_factor ps i j t)"
      using False by (intro ext) (simp add: basis_factor_def)
    ultimately show ?thesis using False by simp
  qed
qed

lemma length_filter_neq_upt:
  "length (filter (\<lambda>j. j \<noteq> i) [0..<k]) = (if i < k then k - 1 else k)"
  by (induction k) auto

lemma interpolant_is_poly: "is_poly (length ps - 1) (interpolant ps)"
proof -
  let ?k = "length ps"
  have "is_poly (?k - 1)
      (\<lambda>t. real_of_int (y (ps ! i)) * (\<Prod>j\<leftarrow>[0..<?k]. basis_factor ps i j t))"
    if "i \<in> set [0..<?k]" for i
  proof -
    from that have "length (filter (\<lambda>j. j \<noteq> i) [0..<?k]) = ?k - 1"
      by (simp add: length_filter_neq_upt)
    with basis_is_poly [of i "[0..<?k]" ps] show ?thesis
      by (intro is_poly_scale) simp
  qed
  then have "is_poly (?k - 1) (\<lambda>t. \<Sum>i\<leftarrow>[0..<?k].
      real_of_int (y (ps ! i)) * (\<Prod>j\<leftarrow>[0..<?k]. basis_factor ps i j t))"
    by (intro is_poly_sum_list) blast
  moreover have "interpolant ps = (\<lambda>t. \<Sum>i\<leftarrow>[0..<?k].
      real_of_int (y (ps ! i)) * (\<Prod>j\<leftarrow>[0..<?k]. basis_factor ps i j t))"
    by (intro ext) (simp add: interpolant_def)
  ultimately show ?thesis by simp
qed

lemma not_duplicate_xD:
  assumes "\<not> duplicate_x ps" and "i < length ps" and "j < length ps"
    and "x (ps ! i) = x (ps ! j)"
  shows "i = j"
proof (rule ccontr)
  assume "i \<noteq> j"
  with assms(2-4) have "duplicate_x ps"
    unfolding duplicate_x_def by (intro bexI [of _ i] bexI [of _ j]) simp_all
  with assms(1) show False by simp
qed

lemma basis_at_node:
  assumes "\<not> duplicate_x ps" and "i < length ps" and "m < length ps"
  shows "(\<Prod>j\<leftarrow>[0..<length ps]. basis_factor ps i j (real_of_int (x (ps ! m))))
       = (if i = m then 1 else 0)"
proof (cases "i = m")
  case True
  have "basis_factor ps i j (real_of_int (x (ps ! i))) = 1" if "j \<in> set [0..<length ps]" for j
  proof (cases "j = i")
    case True
    then show ?thesis by (simp add: basis_factor_def)
  next
    case False
    with assms that have "x (ps ! i) \<noteq> x (ps ! j)"
      using not_duplicate_xD [of ps i j] by auto
    with False show ?thesis by (simp add: basis_factor_def)
  qed
  then have "map (\<lambda>j. basis_factor ps i j (real_of_int (x (ps ! i)))) [0..<length ps]
      = map (\<lambda>j. 1) [0..<length ps]"
    by (intro map_cong) simp_all
  then have "(\<Prod>j\<leftarrow>[0..<length ps]. basis_factor ps i j (real_of_int (x (ps ! i)))) = 1"
    by (simp add: map_replicate_const)
  with True show ?thesis by simp
next
  case False
  then have "basis_factor ps i m (real_of_int (x (ps ! m))) = 0"
    by (simp add: basis_factor_def)
  with assms(3) have "0 \<in> set (map (\<lambda>j. basis_factor ps i j (real_of_int (x (ps ! m)))) [0..<length ps])"
    by force
  then have "(\<Prod>j\<leftarrow>[0..<length ps]. basis_factor ps i j (real_of_int (x (ps ! m)))) = 0"
    by (simp only: prod_list_zero_iff)
  with False show ?thesis by simp
qed

lemma interpolant_at_node:
  assumes "\<not> duplicate_x ps" and "m < length ps"
  shows "interpolant ps (real_of_int (x (ps ! m))) = real_of_int (y (ps ! m))"
proof -
  let ?t = "real_of_int (x (ps ! m))"
  have "interpolant ps ?t
      = (\<Sum>i\<leftarrow>[0..<length ps]. if i = m then real_of_int (y (ps ! i)) else 0)"
    unfolding interpolant_def
    by (intro arg_cong [where f = sum_list] map_cong refl)
      (simp add: basis_at_node [OF assms(1) _ assms(2)])
  also have "\<dots> = (\<Sum>i\<in>{0..<length ps}. if i = m then real_of_int (y (ps ! i)) else 0)"
    by (simp add: interv_sum_list_conv_sum_set_nat)
  also have "\<dots> = real_of_int (y (ps ! m))"
    using assms(2) by (simp add: sum.delta)
  finally show ?thesis .
qed

lemma poly_vanishes:
  assumes "is_poly n D" and "inj_on r {..n}" and "\<forall>m\<le>n. D (r m) = 0"
  shows "D t = 0"
proof -
  from assms(1) obtain c where c: "\<And>t. D t = (\<Sum>i\<le>n. c i * t ^ i)"
    unfolding is_poly_def by blast
  have "\<forall>i\<le>n. c i = 0"
  proof (rule ccontr)
    assume "\<not> (\<forall>i\<le>n. c i = 0)"
    then obtain i where i: "i \<le> n" "c i \<noteq> 0" by blast
    let ?Z = "{z. (\<Sum>i\<le>n. c i * z ^ i) = 0}"
    from polyfun_rootbound [where c = c and k = i and n = n, OF i(2) i(1)] have fin: "finite ?Z" and card: "card ?Z \<le> n"
      by blast+
    have "r ` {..n} \<subseteq> ?Z" using assms(3) c by auto
    with fin have "card (r ` {..n}) \<le> card ?Z" by (rule card_mono)
    moreover have "card (r ` {..n}) = Suc n" using assms(2) by (simp add: card_image)
    ultimately show False using card by simp
  qed
  then show ?thesis by (simp add: c)
qed

lemma reduced_integer:
  assumes "reduced f" and "fraction_value f = real_of_int v"
  shows "num f = v \<and> den f = 1"
proof -
  from assms(1) have pos: "0 < den f" and g: "gcd \<bar>num f\<bar> (den f) = 1"
    by (simp_all add: reduced_def)
  from assms(2) pos have "real_of_int (num f) = real_of_int (v * den f)"
    by (simp add: fraction_value_def field_simps)
  then have eq: "num f = v * den f" by (simp only: of_int_eq_iff)
  then have "den f dvd \<bar>num f\<bar>" by simp
  then have "gcd \<bar>num f\<bar> (den f) = den f" using pos by (simp add: gcd_proj2_iff)
  with g have "den f = 1" by simp
  with eq show ?thesis by simp
qed

lemma interpolant_recovers:
  assumes "\<not> duplicate_x ps" and "length cs \<le> length ps"
    and "\<forall>i\<in>{0..<length ps}. y (ps ! i) = poly_eval cs (x (ps ! i))"
  shows "interpolant ps 0 = real_of_int (poly_eval cs 0)"
proof (cases "ps = []")
  case True
  with assms(2) show ?thesis by (simp add: interpolant_def)
next
  case False
  let ?n = "length ps - 1"
  let ?D = "\<lambda>t. interpolant ps t + (- 1) * poly_eval_real cs t"
  let ?r = "\<lambda>m. real_of_int (x (ps ! m))"
  from False have k: "length ps = Suc ?n" by (cases ps) simp_all
  with assms(2) have "length cs \<le> Suc ?n" by simp
  then have "is_poly ?n (poly_eval_real cs)" by (rule is_poly_poly_eval_real)
  then have 1: "is_poly ?n ?D"
    by (intro is_poly_add interpolant_is_poly is_poly_scale)
  have 2: "inj_on ?r {..?n}"
  proof (rule inj_onI)
    fix a b assume "a \<in> {..?n}" "b \<in> {..?n}" "?r a = ?r b"
    with k have "a < length ps" "b < length ps" "x (ps ! a) = x (ps ! b)" by simp_all
    with assms(1) show "a = b" by (rule not_duplicate_xD)
  qed
  have 3: "\<forall>m\<le>?n. ?D (?r m) = 0"
  proof (intro allI impI)
    fix m assume "m \<le> ?n"
    with k have m: "m < length ps" by simp
    with assms(3) have "y (ps ! m) = poly_eval cs (x (ps ! m))" by simp
    with interpolant_at_node [OF assms(1) m] show "?D (?r m) = 0"
      by (simp add: poly_eval_real)
  qed
  from poly_vanishes [OF 1 2 3, of 0] show ?thesis
    by (simp add: poly_eval_real)
qed

text \<open>
  C1: when no two points share an \<open>x\<close> and every \<open>y\<close> is the value at \<open>x\<close> of one
  integer-coefficient polynomial with at most as many coefficients as there are points
  (degree at most \<open>k - 1\<close>), \<open>lagrangeAtZero\<close> returns a fraction whose exact integer
  value, as extracted by \<open>toIntegerStringIfExact\<close>, is the value of the polynomial at 0,
  its constant term.
\<close>

theorem lagrangeAtZero_recovers_constant_term:
  assumes "\<not> duplicate_x points"
    and "length cs \<le> length points"
    and "\<forall>i\<in>{0..<length points}. y (points ! i) = poly_eval cs (x (points ! i))"
  shows "(\<exists>f. lagrangeAtZero points = Inr f \<and> num f = poly_eval cs 0 \<and> den f = 1
            \<and> toIntegerStringIfExact f = Inr (BigInt_toString (poly_eval cs 0)))
       \<and> poly_eval cs 0 = (case cs of [] \<Rightarrow> 0 | c # cs' \<Rightarrow> c)"
proof -
  from lagrangeAtZero_value [OF assms(1)] obtain f
    where f: "lagrangeAtZero points = Inr f" "reduced f" "fraction_value f = interpolant points 0"
    by blast
  from f(3) have "fraction_value f = real_of_int (poly_eval cs 0)"
    by (simp add: interpolant_recovers [OF assms])
  with f(2) have nd: "num f = poly_eval cs 0" "den f = 1"
    using reduced_integer by blast+
  then have "toIntegerStringIfExact f = Inr (BigInt_toString (poly_eval cs 0))"
    by (simp add: toIntegerStringIfExact_def)
  moreover have "poly_eval cs 0 = (case cs of [] \<Rightarrow> 0 | c # cs' \<Rightarrow> c)"
    by (cases cs) simp_all
  ultimately show ?thesis using f(1) nd by blast
qed

theorem lagrangeAtZero_recovers_constant_term_witness:
  "\<not> duplicate_x [\<lparr>x = 1, y = 4\<rparr>, \<lparr>x = 2, y = 7\<rparr>, \<lparr>x = 3, y = 12\<rparr>]
   \<and> length [3, 0, 1 :: int] \<le> length [\<lparr>x = 1, y = 4\<rparr>, \<lparr>x = 2, y = 7\<rparr>, \<lparr>x = 3, y = 12\<rparr>]
   \<and> poly_eval [3, 0, 1] 1 = 4 \<and> poly_eval [3, 0, 1] 2 = 7 \<and> poly_eval [3, 0, 1] 3 = 12
   \<and> (\<exists>f. lagrangeAtZero [\<lparr>x = 1, y = 4\<rparr>, \<lparr>x = 2, y = 7\<rparr>, \<lparr>x = 3, y = 12\<rparr>] = Inr f
          \<and> num f = 3 \<and> den f = 1 \<and> toIntegerStringIfExact f = Inr ''3'')"
proof -
  let ?P = "[\<lparr>x = 1, y = 4\<rparr>, \<lparr>x = 2, y = 7\<rparr>, \<lparr>x = 3, y = 12\<rparr>]"
  have a: "\<not> duplicate_x ?P" by code_simp
  have b: "length [3, 0, 1 :: int] \<le> length ?P" by simp
  have c: "\<forall>i\<in>{0..<length ?P}. y (?P ! i) = poly_eval [3, 0, 1] (x (?P ! i))"
    by code_simp
  have v: "poly_eval [3, 0, 1] 0 = 3" by simp
  have s: "BigInt_toString 3 = ''3''" by code_simp
  from lagrangeAtZero_recovers_constant_term [OF a b c]
  have "\<exists>f. lagrangeAtZero ?P = Inr f \<and> num f = 3 \<and> den f = 1
          \<and> toIntegerStringIfExact f = Inr ''3''"
    unfolding v s by blast
  moreover have "poly_eval [3, 0, 1] 1 = 4" "poly_eval [3, 0, 1] 2 = 7" "poly_eval [3, 0, 1] 3 = 12"
    by simp_all
  ultimately show ?thesis using a b by blast
qed

subsection \<open>decodeValueToBigInt\<close>

lemma of_char_digit_char:
  assumes "0 \<le> d" and "d < 36"
  shows "(of_char (digit_char d) :: int) = (if d < 10 then 48 + d else 87 + d)"
  using assms by (simp add: digit_char_def)

lemma decode_loop_digit:
  assumes "0 \<le> d" and "d < b" and "b \<le> 36"
  shows "decode_loop b (digit_char d # s) acc = decode_loop b s (acc * b + d)"
proof -
  from assms have d: "d < 36" and lt: "\<not> b \<le> d" by simp_all
  show ?thesis
  proof (cases "d < 10")
    case True
    with d assms(1) have "(of_char (digit_char d) :: int) = 48 + d"
      by (simp add: of_char_digit_char)
    with True lt assms(1) show ?thesis by (simp add: Let_def)
  next
    case False
    with d assms(1) have "(of_char (digit_char d) :: int) = 87 + d"
      by (simp add: of_char_digit_char)
    with False lt d show ?thesis by (simp add: Let_def)
  qed
qed

lemma decode_loop_append:
  "decode_loop b (s @ s') acc =
     (case decode_loop b s acc of Inl e \<Rightarrow> Inl e | Inr v \<Rightarrow> decode_loop b s' v)"
  by (induction s arbitrary: acc) (simp_all add: Let_def)

lemma decode_loop_render:
  assumes "2 \<le> b" and "b \<le> 36" and "0 \<le> n"
  shows "decode_loop b (render_digits b n) 0 = Inr n"
  using assms
proof (induction b n rule: render_digits.induct)
  case (1 b n)
  show ?case
  proof (cases "n < b")
    case True
    with "1.prems" have "decode_loop b [digit_char n] 0 = decode_loop b [] (0 * b + n)"
      by (intro decode_loop_digit) simp_all
    then have "decode_loop b [digit_char n] 0 = Inr n" by simp
    with True show ?thesis by (simp add: render_digits.simps [of b n])
  next
    case False
    with "1.prems" have r: "render_digits b n = render_digits b (n div b) @ [digit_char (n mod b)]"
      by (simp add: render_digits.simps [of b n])
    from "1.prems" have "0 \<le> n div b" by (simp add: pos_imp_zdiv_nonneg_iff)
    with False "1.prems" have ih: "decode_loop b (render_digits b (n div b)) 0 = Inr (n div b)"
      using "1.IH" by simp
    from "1.prems" have "0 \<le> n mod b" "n mod b < b" by simp_all
    then have "decode_loop b [digit_char (n mod b)] (n div b)
        = decode_loop b [] (n div b * b + n mod b)"
      using "1.prems"(2) by (rule decode_loop_digit)
    then have "decode_loop b [digit_char (n mod b)] (n div b) = Inr n"
      by simp
    then show ?thesis by (simp add: r decode_loop_append ih)
  qed
qed

lemma render_digits_chars:
  assumes "2 \<le> b" and "0 \<le> n"
  shows "set (render_digits b n) \<subseteq> digit_char ` {0..<b}"
  using assms
proof (induction b n rule: render_digits.induct)
  case (1 b n)
  show ?case
  proof (cases "n < b")
    case True
    with "1.prems" show ?thesis by (simp add: render_digits.simps [of b n])
  next
    case False
    with "1.prems" have r: "render_digits b n = render_digits b (n div b) @ [digit_char (n mod b)]"
      by (simp add: render_digits.simps [of b n])
    from "1.prems" have "0 \<le> n div b" by (simp add: pos_imp_zdiv_nonneg_iff)
    with False "1.prems" "1.IH" have "set (render_digits b (n div b)) \<subseteq> digit_char ` {0..<b}"
      by simp
    moreover from "1.prems" have "0 \<le> n mod b" "n mod b < b" by simp_all
    ultimately show ?thesis by (simp add: r)
  qed
qed

lemma lower_digit_not_space:
  assumes "toLowerCase_char c = digit_char d" and "0 \<le> d" and "d < 36"
  shows "\<not> isWhiteSpace c"
proof
  assume w: "isWhiteSpace c"
  then have "toLowerCase_char c = c"
    by (auto simp: isWhiteSpace_def toLowerCase_char_def Let_def)
  with assms(1) have "(of_char c :: int) = of_char (digit_char d)" by simp
  with assms(2,3) have "(of_char c :: int) = (if d < 10 then 48 + d else 87 + d)"
    by (simp only: of_char_digit_char)
  with w assms(2,3) show False
    by (auto simp: isWhiteSpace_def split: if_splits)
qed

lemma trim_no_space:
  assumes "\<forall>c\<in>set s. \<not> isWhiteSpace c"
  shows "trim s = s"
proof -
  have d: "dropWhile isWhiteSpace t = t" if "\<forall>c\<in>set t. \<not> isWhiteSpace c" for t
    using that by (cases t) simp_all
  from assms have "dropWhile isWhiteSpace s = s" by (rule d)
  moreover from assms have "dropWhile isWhiteSpace (rev s) = rev s" by (intro d) simp
  ultimately show ?thesis by (simp add: trim_def)
qed

lemma toLowerCase_digit_char:
  assumes "0 \<le> d" and "d < 36"
  shows "toLowerCase_char (digit_char d) = digit_char d"
proof -
  from assms have "(of_char (digit_char d) :: int) = (if d < 10 then 48 + d else 87 + d)"
    by (rule of_char_digit_char)
  with assms show ?thesis
    by (cases "d < 10") (simp_all add: toLowerCase_char_def Let_def)
qed

lemma toLowerCase_render:
  assumes "2 \<le> b" and "b \<le> 36" and "0 \<le> n"
  shows "toLowerCase (render_digits b n) = render_digits b n"
proof -
  have "toLowerCase_char c = c" if "c \<in> set (render_digits b n)" for c
  proof -
    from that render_digits_chars [OF assms(1,3)]
    have "c \<in> digit_char ` {0..<b}" by auto
    then obtain d where "d \<in> {0..<b}" "c = digit_char d" by blast
    with assms(2) show ?thesis by (simp add: toLowerCase_digit_char)
  qed
  then show ?thesis unfolding toLowerCase_def by (simp add: map_idI)
qed

text \<open>
  C3: for every base \<open>b\<close> from 2 to 36 and every non-negative \<open>n\<close>, decoding the radix-\<open>b\<close>
  rendering of \<open>n\<close> (digits \<open>0-9\<close>, then \<open>a-z\<close>) at base \<open>b\<close> returns \<open>n\<close>, and so does
  decoding any string that differs from the rendering only in the case of its letters.
\<close>

theorem decode_render_roundtrip:
  assumes "Number_int baseStr = Some b" and "2 \<le> b" and "b \<le> 36" and "0 \<le> n"
  shows "decodeValueToBigInt Number_int (render_digits b n) baseStr = Inr n
       \<and> (\<forall>s. toLowerCase s = render_digits b n \<longrightarrow>
             decodeValueToBigInt Number_int s baseStr = Inr n)"
proof -
  have any: "decodeValueToBigInt Number_int s baseStr = Inr n"
    if s: "toLowerCase s = render_digits b n" for s
  proof -
    have "\<not> isWhiteSpace c" if "c \<in> set s" for c
    proof -
      from that have "toLowerCase_char c \<in> set (toLowerCase s)"
        by (simp add: toLowerCase_def)
      with s render_digits_chars [OF assms(2,4)]
      have "toLowerCase_char c \<in> digit_char ` {0..<b}" by auto
      then obtain d where "d \<in> {0..<b}" "toLowerCase_char c = digit_char d" by blast
      then have "0 \<le> d" "d < b" "toLowerCase_char c = digit_char d" by simp_all
      with assms(3) show ?thesis by (intro lower_digit_not_space [of c d]) simp_all
    qed
    then have "trim s = s" by (intro trim_no_space) blast
    moreover from decode_loop_render [OF assms(2,3,4)]
    have "decode_loop b (render_digits b n) 0 = Inr n" .
    ultimately show ?thesis
      using assms(1,2,3) s by (simp add: decodeValueToBigInt_def)
  qed
  from any [OF toLowerCase_render [OF assms(2,3,4)]] any show ?thesis by blast
qed

theorem decode_render_roundtrip_witness:
  "decimalNumber ''16'' = Some 16 \<and> (2::int) \<le> 16 \<and> (16::int) \<le> 36 \<and> (0::int) \<le> 48879
   \<and> render_digits 16 48879 = ''beef''
   \<and> decodeValueToBigInt decimalNumber ''beef'' ''16'' = Inr 48879
   \<and> toLowerCase ''bEeF'' = ''beef''
   \<and> decodeValueToBigInt decimalNumber ''bEeF'' ''16'' = Inr 48879"
proof -
  have a: "decimalNumber ''16'' = Some 16" by code_simp
  have r: "render_digits 16 48879 = ''beef''" by code_simp
  have l: "toLowerCase ''bEeF'' = ''beef''" by code_simp
  have t: "decodeValueToBigInt decimalNumber (render_digits 16 48879) ''16'' = Inr 48879
       \<and> (\<forall>s. toLowerCase s = render_digits 16 48879 \<longrightarrow>
             decodeValueToBigInt decimalNumber s ''16'' = Inr 48879)"
    using a
    by (intro decode_render_roundtrip [where Number_int = decimalNumber and b = 16]) simp_all
  from t have 1: "decodeValueToBigInt decimalNumber ''beef'' ''16'' = Inr 48879"
    by (simp only: r)
  from t l have 2: "decodeValueToBigInt decimalNumber ''bEeF'' ''16'' = Inr 48879"
    by (simp only: r)
  from a r l 1 2 show ?thesis by simp
qed

text \<open>
  C8 (amended): for every base from 2 to 36, the decoder applied to a value string that is
  empty after trimming returns \<open>0n\<close>; it raises no error.
\<close>

theorem decode_empty_is_zero:
  assumes "Number_int baseStr = Some b" and "2 \<le> b" and "b \<le> 36" and "trim valueStr = []"
  shows "decodeValueToBigInt Number_int valueStr baseStr = Inr 0"
  using assms by (simp add: decodeValueToBigInt_def toLowerCase_def)

theorem decode_empty_is_zero_witness:
  "decimalNumber ''10'' = Some 10 \<and> (2::int) \<le> 10 \<and> (10::int) \<le> 36
   \<and> trim [CHR 0x20, CHR 0x09] = []
   \<and> decodeValueToBigInt decimalNumber [CHR 0x20, CHR 0x09] ''10'' = Inr 0"
proof -
  have a: "decimalNumber ''10'' = Some 10" by code_simp
  have t: "trim [CHR 0x20, CHR 0x09] = []" by code_simp
  have "decodeValueToBigInt decimalNumber [CHR 0x20, CHR 0x09] ''10'' = Inr 0"
    using a t
    by (intro decode_empty_is_zero [where Number_int = decimalNumber and b = 10]) simp_all
  with a t show ?thesis by simp
qed

text \<open>
  The empty string decodes to zero at base 10, without an error.
\<close>

theorem decode_empty_counterexample:
  "trim '''' = [] \<and> decodeValueToBigInt decimalNumber '''' ''10'' = Inr 0"
proof -
  have "trim '''' = []" by code_simp
  moreover have "decodeValueToBigInt decimalNumber '''' ''10'' = Inr 0" by code_simp
  ultimately show ?thesis by simp
qed

subsection \<open>main\<close>

lemma skipped_iff: "skipped obj \<longleftrightarrow> \<not> has_base obj \<or> \<not> has_value obj"
  by (cases obj)
    (simp_all add: skipped_def is_object_def has_base_def has_value_def
      base_property_def value_property_def)

lemma entry_of_cong:
  assumes "\<And>bs. String_base obj = Inr bs \<Longrightarrow> N bs = N' bs"
  shows "entry_of N key obj = entry_of N' key obj"
proof -
  have "decodeValueToBigInt N vs bs = decodeValueToBigInt N' vs bs"
    if "String_base obj = Inr bs" for vs bs
    using assms [OF that] by (simp add: decodeValueToBigInt_def)
  then show ?thesis
    by (simp add: entry_of_def split: sum.splits)
qed

lemma collect_cong:
  assumes "\<forall>p\<in>set ps. fst p \<noteq> ''keys'' \<and> \<not> skipped (snd p)
             \<longrightarrow> (\<forall>bs. String_base (snd p) = Inr bs \<longrightarrow> N bs = N' bs)"
  shows "collect N ps acc = collect N' ps acc"
  using assms
proof (induction ps arbitrary: acc)
  case Nil
  then show ?case by simp
next
  case (Cons p ps)
  obtain key obj where p: "p = (key, obj)" by (cases p)
  from Cons.prems have rest: "\<forall>p\<in>set ps. fst p \<noteq> ''keys'' \<and> \<not> skipped (snd p)
             \<longrightarrow> (\<forall>bs. String_base (snd p) = Inr bs \<longrightarrow> N bs = N' bs)" by simp
  show ?case
  proof (cases "key = ''keys'' \<or> skipped obj")
    case True
    then show ?thesis using Cons.IH [OF rest] p by auto
  next
    case False
    with Cons.prems p have "\<And>bs. String_base obj = Inr bs \<Longrightarrow> N bs = N' bs" by simp
    then have "entry_of N key obj = entry_of N' key obj" by (rule entry_of_cong)
    with False p Cons.IH [OF rest] show ?thesis
      by (simp split: sum.splits)
  qed
qed

lemma main_cong:
  assumes "\<forall>p\<in>set (props d). fst p \<noteq> ''keys'' \<and> \<not> skipped (snd p)
             \<longrightarrow> (\<forall>bs. String_base (snd p) = Inr bs \<longrightarrow> N bs = N' bs)"
  shows "main N d = main N' d"
proof -
  have c: "collect N (props d) [] = collect N' (props d) []"
    by (rule collect_cong [OF assms])
  show ?thesis unfolding main_def c by (rule refl)
qed

text \<open>
  C7: on the second test case of the README (\<open>n = 4\<close>, \<open>k = 3\<close>; label 1 is base-10 \<open>4\<close>,
  label 2 is base-2 \<open>111\<close>, label 3 is base-10 \<open>12\<close>, label 6 is base-4 \<open>213\<close>) the points
  sorted by \<open>x\<close> and cut to the first three are \<open>(1, 4)\<close>, \<open>(2, 7)\<close>, \<open>(3, 12)\<close>, and \<open>main\<close>
  prints \<open>3\<close>.  The conversion of the three base strings is the only assumption on
  \<open>Number\<close>.
\<close>

theorem main_scenario_B:
  assumes "Number_int ''10'' = Some 10" and "Number_int ''2'' = Some 2"
    and "Number_int ''4'' = Some 4"
  shows "collect Number_int (props scenario_B) []
           = Inr [\<lparr>x = 1, y = 4, rawKey = ''1''\<rparr>, \<lparr>x = 2, y = 7, rawKey = ''2''\<rparr>,
                  \<lparr>x = 3, y = 12, rawKey = ''3''\<rparr>, \<lparr>x = 6, y = 39, rawKey = ''6''\<rparr>]
       \<and> chosen 3 [\<lparr>x = 1, y = 4, rawKey = ''1''\<rparr>, \<lparr>x = 2, y = 7, rawKey = ''2''\<rparr>,
                   \<lparr>x = 3, y = 12, rawKey = ''3''\<rparr>, \<lparr>x = 6, y = 39, rawKey = ''6''\<rparr>]
           = [\<lparr>x = 1, y = 4\<rparr>, \<lparr>x = 2, y = 7\<rparr>, \<lparr>x = 3, y = 12\<rparr>]
       \<and> main Number_int scenario_B = Inr ''3''"
proof -
  have d: "decimalNumber ''10'' = Some 10" "decimalNumber ''2'' = Some 2"
    "decimalNumber ''4'' = Some 4"
    by code_simp+
  have agree: "\<forall>p\<in>set (props scenario_B). fst p \<noteq> ''keys'' \<and> \<not> skipped (snd p)
      \<longrightarrow> (\<forall>bs. String_base (snd p) = Inr bs \<longrightarrow> Number_int bs = decimalNumber bs)"
    by (simp add: scenario_B_def String_base_def String_property_def base_property_def assms d)
  have "collect decimalNumber (props scenario_B) []
           = Inr [\<lparr>x = 1, y = 4, rawKey = ''1''\<rparr>, \<lparr>x = 2, y = 7, rawKey = ''2''\<rparr>,
                  \<lparr>x = 3, y = 12, rawKey = ''3''\<rparr>, \<lparr>x = 6, y = 39, rawKey = ''6''\<rparr>]"
    by code_simp
  then have 1: "collect Number_int (props scenario_B) []
           = Inr [\<lparr>x = 1, y = 4, rawKey = ''1''\<rparr>, \<lparr>x = 2, y = 7, rawKey = ''2''\<rparr>,
                  \<lparr>x = 3, y = 12, rawKey = ''3''\<rparr>, \<lparr>x = 6, y = 39, rawKey = ''6''\<rparr>]"
    by (simp only: collect_cong [OF agree])
  have 2: "chosen 3 [\<lparr>x = 1, y = 4, rawKey = ''1''\<rparr>, \<lparr>x = 2, y = 7, rawKey = ''2''\<rparr>,
                   \<lparr>x = 3, y = 12, rawKey = ''3''\<rparr>, \<lparr>x = 6, y = 39, rawKey = ''6''\<rparr>]
           = [\<lparr>x = 1, y = 4\<rparr>, \<lparr>x = 2, y = 7\<rparr>, \<lparr>x = 3, y = 12\<rparr>]"
    by code_simp
  have "main decimalNumber scenario_B = Inr ''3''"
    by code_simp
  then have 3: "main Number_int scenario_B = Inr ''3''"
    by (simp only: main_cong [OF agree])
  from 1 2 3 show ?thesis by blast
qed

theorem main_scenario_B_witness:
  "decimalNumber ''10'' = Some 10 \<and> decimalNumber ''2'' = Some 2 \<and> decimalNumber ''4'' = Some 4
   \<and> main decimalNumber scenario_B = Inr ''3''"
proof -
  have d: "decimalNumber ''10'' = Some 10" "decimalNumber ''2'' = Some 2"
    "decimalNumber ''4'' = Some 4"
    by code_simp+
  from main_scenario_B [OF d] d show ?thesis by blast
qed

lemma entry_of_Inr:
  assumes "entry_of N key obj = Inr en"
  shows "rawKey en = key \<and> BigInt_of_string key = Inr (x en)
       \<and> (case String_value obj of
            Inl err \<Rightarrow> False
          | Inr valueStr \<Rightarrow>
              (case String_base obj of
                 Inl err \<Rightarrow> False
               | Inr baseStr \<Rightarrow> decodeValueToBigInt N valueStr baseStr = Inr (y en)))"
  using assms by (auto simp: entry_of_def split: sum.splits)

lemma entry_of_Inl:
  assumes "entry_of N key obj = Inl e"
  shows "BigInt_of_string key = Inl e \<or> String_value obj = Inl e \<or> String_base obj = Inl e
       \<or> (\<exists>vs bs. String_value obj = Inr vs \<and> String_base obj = Inr bs
             \<and> decodeValueToBigInt N vs bs = Inl e)"
  using assms by (auto simp: entry_of_def split: sum.splits)

lemma collect_Inr:
  assumes "collect N ps acc = Inr entries"
  shows "\<exists>new. entries = acc @ new \<and> list_all2 (decoded_from N) new (collected ps)"
  using assms
proof (induction ps arbitrary: acc)
  case Nil
  then show ?case by (simp add: collected_def)
next
  case (Cons p ps)
  obtain key obj where p: "p = (key, obj)" by (cases p)
  show ?case
  proof (cases "key = ''keys'' \<or> skipped obj")
    case True
    with Cons.prems p have "collect N ps acc = Inr entries" by (auto split: if_splits)
    from Cons.IH [OF this] True p show ?thesis by (auto simp: collected_def)
  next
    case False
    with Cons.prems p obtain en where
      en: "entry_of N key obj = Inr en" and
      c: "collect N ps (acc @ [en]) = Inr entries"
      by (auto split: sum.splits)
    from Cons.IH [OF c] obtain new where
      new: "entries = (acc @ [en]) @ new" "list_all2 (decoded_from N) new (collected ps)"
      by blast
    from False entry_of_Inr [OF en] have "decoded_from N en (key, obj)"
      by (auto simp: decoded_from_def skipped_iff split: sum.splits)
    with new(2) False p
    have "list_all2 (decoded_from N) (en # new) (collected (p # ps))"
      by (simp add: collected_def)
    with new(1) show ?thesis by auto
  qed
qed

lemma collect_Inl:
  assumes "collect N ps acc = Inl e"
  shows "\<exists>p\<in>set (collected ps). entry_of N (fst p) (snd p) = Inl e"
  using assms
proof (induction ps arbitrary: acc)
  case Nil
  then show ?case by simp
next
  case (Cons p ps)
  obtain key obj where p: "p = (key, obj)" by (cases p)
  show ?case
  proof (cases "key = ''keys'' \<or> skipped obj")
    case True
    with Cons.prems p have "collect N ps acc = Inl e" by (auto split: if_splits)
    from Cons.IH [OF this] True p show ?thesis by (auto simp: collected_def)
  next
    case False
    then have here: "p \<in> set (collected (p # ps))" by (simp add: collected_def p)
    have sub: "set (collected ps) \<subseteq> set (collected (p # ps))" by (auto simp: collected_def)
    show ?thesis
    proof (cases "entry_of N key obj")
      case (Inl e')
      with Cons.prems False p have "e' = e" by simp
      with Inl have "entry_of N (fst p) (snd p) = Inl e" by (simp add: p)
      with here show ?thesis by blast
    next
      case (Inr en)
      with Cons.prems False p have "collect N ps (acc @ [en]) = Inl e" by simp
      from Cons.IH [OF this] sub show ?thesis by blast
    qed
  qed
qed

lemma collect_all_decode:
  assumes "list_all (decodes N) (collected ps)"
  shows "\<exists>new. collect N ps acc = Inr (acc @ new) \<and> length new = length (collected ps)"
  using assms
proof (induction ps arbitrary: acc)
  case Nil
  then show ?case by (simp add: collected_def)
next
  case (Cons p ps)
  obtain key obj where p: "p = (key, obj)" by (cases p)
  show ?case
  proof (cases "key = ''keys'' \<or> skipped obj")
    case True
    with Cons.prems p have "list_all (decodes N) (collected ps)" by (auto simp: collected_def)
    from Cons.IH [OF this, of acc] True p show ?thesis by (auto simp: collected_def)
  next
    case False
    with Cons.prems p have d: "decodes N (key, obj)" and
      rest: "list_all (decodes N) (collected ps)"
      by (simp_all add: collected_def)
    from d obtain en where en: "entry_of N key obj = Inr en"
      by (auto simp: decodes_def split: sum.splits)
    from Cons.IH [OF rest, of "acc @ [en]"] obtain new where
      new: "collect N ps (acc @ [en]) = Inr ((acc @ [en]) @ new)"
      "length new = length (collected ps)"
      by blast
    from False p en new(1) have "collect N (p # ps) acc = Inr (acc @ (en # new))" by simp
    moreover from False p new(2) have "length (en # new) = length (collected (p # ps))"
      by (simp add: collected_def)
    ultimately show ?thesis by blast
  qed
qed

lemma list_all2_decodes:
  assumes "list_all2 P xs ys" and "\<And>u v. P u v \<Longrightarrow> Q v"
  shows "list_all Q ys"
  using assms by (induction xs ys rule: list_all2_induct) simp_all

lemma collect_some_fails:
  assumes "\<not> list_all (decodes N) (collected ps)"
  shows "\<exists>e. collect N ps acc = Inl e"
proof (cases "collect N ps acc")
  case (Inl e)
  then show ?thesis by blast
next
  case (Inr entries)
  from collect_Inr [OF this] obtain new where
    new: "list_all2 (decoded_from N) new (collected ps)" by blast
  have "decodes N p" if "decoded_from N en p" for en p
    using that
    by (cases p) (auto simp: decoded_from_def decodes_def entry_of_def split: sum.splits)
  with new have "list_all (decodes N) (collected ps)"
    by (rule list_all2_decodes)
  with assms show ?thesis by simp
qed

text \<open>
  C9 (amended): an entry is passed over, without an error, exactly when it does not have
  both the base field and the value field (a value that is not an object has neither).
  Every entry that is not passed over has both fields and goes through lines 167 to 169.
  When the collection loop finishes, the collected points are, in order and one for one,
  the entries other than \<open>keys\<close> that were not passed over: for each, the key converted to
  \<open>x\<close>, both fields converted to strings and the value decoded to \<open>y\<close>.  When the loop
  does not finish, the error is, for one such entry, that of converting the key, of
  converting one of the two fields to a string, or of decoding the value.
\<close>

theorem collect_entries:
  "(skipped obj \<longleftrightarrow> \<not> has_base obj \<or> \<not> has_value obj)
   \<and> (collect Number_int ps [] = Inr entries \<longrightarrow>
        list_all2 (decoded_from Number_int) entries (collected ps))
   \<and> (collect Number_int ps [] = Inl e \<longrightarrow>
        (\<exists>p\<in>set (collected ps).
           BigInt_of_string (fst p) = Inl e
           \<or> String_value (snd p) = Inl e
           \<or> String_base (snd p) = Inl e
           \<or> (\<exists>valueStr baseStr.
                 String_value (snd p) = Inr valueStr \<and> String_base (snd p) = Inr baseStr
                 \<and> decodeValueToBigInt Number_int valueStr baseStr = Inl e)))"
proof (intro conjI impI)
  show "skipped obj \<longleftrightarrow> \<not> has_base obj \<or> \<not> has_value obj" by (rule skipped_iff)
  show "list_all2 (decoded_from Number_int) entries (collected ps)"
    if "collect Number_int ps [] = Inr entries"
    using collect_Inr [OF that] by simp
  show "\<exists>p\<in>set (collected ps).
           BigInt_of_string (fst p) = Inl e
           \<or> String_value (snd p) = Inl e
           \<or> String_base (snd p) = Inl e
           \<or> (\<exists>valueStr baseStr.
                 String_value (snd p) = Inr valueStr \<and> String_base (snd p) = Inr baseStr
                 \<and> decodeValueToBigInt Number_int valueStr baseStr = Inl e)"
    if "collect Number_int ps [] = Inl e"
  proof -
    from collect_Inl [OF that] obtain p where
      p: "p \<in> set (collected ps)" "entry_of Number_int (fst p) (snd p) = Inl e"
      by blast
    from entry_of_Inl [OF p(2)] p(1) show ?thesis by blast
  qed
qed

theorem collect_entries_witness:
  "skipped (Object (Stringifies ''10'') Missing)
   \<and> collect decimalNumber
        [(''keys'', Object Missing Missing), (''1'', Object (Stringifies ''10'') Missing),
         (''2'', NonObject), (''3'', Object (Stringifies ''10'') (Stringifies ''12''))] []
       = Inr [\<lparr>x = 3, y = 12, rawKey = ''3''\<rparr>]
   \<and> list_all2 (decoded_from decimalNumber) [\<lparr>x = 3, y = 12, rawKey = ''3''\<rparr>]
        (collected [(''keys'', Object Missing Missing), (''1'', Object (Stringifies ''10'') Missing),
           (''2'', NonObject), (''3'', Object (Stringifies ''10'') (Stringifies ''12''))])
   \<and> collected [(''keys'', Object Missing Missing), (''1'', Object (Stringifies ''10'') Missing),
           (''2'', NonObject), (''3'', Object (Stringifies ''10'') (Stringifies ''12''))]
       = [(''3'', Object (Stringifies ''10'') (Stringifies ''12''))]
   \<and> collect decimalNumber [(''4'', Object (Stringifies ''10'') Unstringifiable)] []
       = Inl TypeError
   \<and> String_value (Object (Stringifies ''10'') Unstringifiable) = Inl TypeError"
proof -
  let ?ps = "[(''keys'', Object Missing Missing), (''1'', Object (Stringifies ''10'') Missing),
           (''2'', NonObject), (''3'', Object (Stringifies ''10'') (Stringifies ''12''))]"
  let ?qs = "[(''4'', Object (Stringifies ''10'') Unstringifiable)]"
  note t = collect_entries [where Number_int = decimalNumber and ps = ?ps
      and obj = "Object (Stringifies ''10'') Missing"
      and entries = "[\<lparr>x = 3, y = 12, rawKey = ''3''\<rparr>]"]
  have c: "collect decimalNumber ?ps [] = Inr [\<lparr>x = 3, y = 12, rawKey = ''3''\<rparr>]"
    by code_simp
  have h: "\<not> has_value (Object (Stringifies ''10'') Missing)" by code_simp
  from t h have 1: "skipped (Object (Stringifies ''10'') Missing)" by blast
  from t c have 2: "list_all2 (decoded_from decimalNumber) [\<lparr>x = 3, y = 12, rawKey = ''3''\<rparr>]
        (collected ?ps)" by blast
  have 3: "collected ?ps = [(''3'', Object (Stringifies ''10'') (Stringifies ''12''))]"
    by code_simp
  have 4: "collect decimalNumber ?qs [] = Inl TypeError" by code_simp
  have 5: "String_value (Object (Stringifies ''10'') Unstringifiable) = Inl TypeError"
    by code_simp
  from 1 c 2 3 4 5 show ?thesis by blast
qed

text \<open>
  An entry with both fields whose value has a digit outside the base is not passed over,
  and it yields no point: the loop ends with the decoder's error.
\<close>

theorem collect_decode_failure_counterexample:
  "\<not> skipped (Object (Stringifies ''10'') (Stringifies ''z''))
   \<and> has_base (Object (Stringifies ''10'') (Stringifies ''z''))
   \<and> has_value (Object (Stringifies ''10'') (Stringifies ''z''))
   \<and> collect decimalNumber [(''5'', Object (Stringifies ''10'') (Stringifies ''z''))] []
       = Inl (DigitNotValid CHR ''z'' 10)"
proof -
  have "\<not> skipped (Object (Stringifies ''10'') (Stringifies ''z''))" by code_simp
  moreover have "has_base (Object (Stringifies ''10'') (Stringifies ''z''))" by code_simp
  moreover have "has_value (Object (Stringifies ''10'') (Stringifies ''z''))" by code_simp
  moreover have "collect decimalNumber [(''5'', Object (Stringifies ''10'') (Stringifies ''z''))] []
       = Inl (DigitNotValid CHR ''z'' 10)"
    by code_simp
  ultimately show ?thesis by blast
qed

text \<open>
  C6 (amended): let \<open>n\<close> and \<open>k\<close> convert to integers with \<open>k > 0\<close>.  When every entry that
  is not passed over converts and decodes, and these usable points are fewer than \<open>k\<close>,
  \<open>main\<close> ends with the not-enough-points message, whatever the interpolation of the
  collected points would give.  When some entry that is not passed over fails to convert
  or decode, \<open>main\<close> ends with the uncaught error of such an entry instead, whatever the
  number of usable points.  The integer \<open>n\<close> does not enter: every integer in its place
  gives the same outcome.
\<close>

theorem main_not_enough_points:
  assumes "keys d = Keys (IntegerNumber n) (IntegerNumber k)" and "0 < k"
  shows "(list_all (decodes Number_int) (collected (props d))
            \<and> int (length (usable Number_int (props d))) < k
          \<longrightarrow> main Number_int d
                = Inl (NotEnoughPoints (length (usable Number_int (props d))) k))
       \<and> (\<not> list_all (decodes Number_int) (collected (props d))
          \<longrightarrow> (\<exists>e. main Number_int d = Inl (Uncaught e)
                  \<and> (\<exists>p\<in>set (collected (props d)).
                        entry_of Number_int (fst p) (snd p) = Inl e)))
       \<and> (\<forall>n'. main Number_int (d\<lparr>keys := Keys (IntegerNumber n') (IntegerNumber k)\<rparr>)
                = main Number_int d)"
proof (intro conjI impI allI)
  show "main Number_int d = Inl (NotEnoughPoints (length (usable Number_int (props d))) k)"
    if h: "list_all (decodes Number_int) (collected (props d))
            \<and> int (length (usable Number_int (props d))) < k"
  proof -
    from h have u: "usable Number_int (props d) = collected (props d)"
      by (simp add: usable_def list_all_iff)
    from h collect_all_decode [of Number_int "props d" "[]"] obtain new where
      new: "collect Number_int (props d) [] = Inr new"
      "length new = length (collected (props d))"
      by auto
    with h u assms show ?thesis by (simp add: main_def)
  qed
  show "\<exists>e. main Number_int d = Inl (Uncaught e)
          \<and> (\<exists>p\<in>set (collected (props d)). entry_of Number_int (fst p) (snd p) = Inl e)"
    if "\<not> list_all (decodes Number_int) (collected (props d))"
  proof -
    from collect_some_fails [OF that, of "[]"] obtain e where
      e: "collect Number_int (props d) [] = Inl e" by blast
    with assms have "main Number_int d = Inl (Uncaught e)" by (simp add: main_def)
    with collect_Inl [OF e] show ?thesis by blast
  qed
  show "main Number_int (d\<lparr>keys := Keys (IntegerNumber n') (IntegerNumber k)\<rparr>)
      = main Number_int d" for n'
    using assms by (simp add: main_def)
qed

theorem main_not_enough_points_witness:
  "keys \<lparr>keys = Keys (IntegerNumber 10) (IntegerNumber 3),
         props = [(''1'', Object (Stringifies ''10'') (Stringifies ''4'')),
                  (''2'', Object (Stringifies ''2'') (Stringifies ''111''))]\<rparr>
     = Keys (IntegerNumber 10) (IntegerNumber 3)
   \<and> (0::int) < 3
   \<and> list_all (decodes decimalNumber)
        (collected [(''1'', Object (Stringifies ''10'') (Stringifies ''4'')),
                    (''2'', Object (Stringifies ''2'') (Stringifies ''111''))])
   \<and> length (usable decimalNumber [(''1'', Object (Stringifies ''10'') (Stringifies ''4'')),
                    (''2'', Object (Stringifies ''2'') (Stringifies ''111''))]) = 2
   \<and> main decimalNumber
        \<lparr>keys = Keys (IntegerNumber 10) (IntegerNumber 3),
         props = [(''1'', Object (Stringifies ''10'') (Stringifies ''4'')),
                  (''2'', Object (Stringifies ''2'') (Stringifies ''111''))]\<rparr>
       = Inl (NotEnoughPoints 2 3)
   \<and> \<not> list_all (decodes decimalNumber)
        (collected [(''1'', Object (Stringifies ''10'') (Stringifies ''z''))])
   \<and> (\<exists>e. main decimalNumber
        \<lparr>keys = Keys (IntegerNumber 10) (IntegerNumber 3),
         props = [(''1'', Object (Stringifies ''10'') (Stringifies ''z''))]\<rparr>
       = Inl (Uncaught e))"
proof -
  let ?ps = "[(''1'', Object (Stringifies ''10'') (Stringifies ''4'')),
              (''2'', Object (Stringifies ''2'') (Stringifies ''111''))]"
  let ?qs = "[(''1'', Object (Stringifies ''10'') (Stringifies ''z''))]"
  let ?d = "\<lparr>keys = Keys (IntegerNumber 10) (IntegerNumber 3), props = ?ps\<rparr>"
  let ?d' = "\<lparr>keys = Keys (IntegerNumber 10) (IntegerNumber 3), props = ?qs\<rparr>"
  have k: "keys ?d = Keys (IntegerNumber 10) (IntegerNumber 3)" by simp
  have k': "keys ?d' = Keys (IntegerNumber 10) (IntegerNumber 3)" by simp
  have pos: "(0::int) < 3" by simp
  have a: "list_all (decodes decimalNumber) (collected ?ps)" by code_simp
  have l: "length (usable decimalNumber ?ps) = 2" by code_simp
  have b: "\<not> list_all (decodes decimalNumber) (collected ?qs)" by code_simp
  note t = main_not_enough_points [where Number_int = decimalNumber, OF k pos]
  note u = main_not_enough_points [where Number_int = decimalNumber, OF k' pos]
  from t a l have 1: "main decimalNumber ?d = Inl (NotEnoughPoints 2 3)" by simp
  from u b have 2: "\<exists>e. main decimalNumber ?d' = Inl (Uncaught e)" by auto
  from k pos a l 1 b 2 show ?thesis by blast
qed

text \<open>
  With no usable point and \<open>k = 1\<close>, an entry whose value has a digit outside the base makes
  \<open>main\<close> end with the decoder's uncaught error, and a declared \<open>n\<close> that is not an
  integer makes it end with the invalid-keys message; neither is the not-enough-points
  message.
\<close>

theorem main_not_enough_points_counterexample:
  "int (length (usable decimalNumber [(''1'', Object (Stringifies ''10'') (Stringifies ''z''))])) < 1
   \<and> main decimalNumber
        \<lparr>keys = Keys (IntegerNumber 1) (IntegerNumber 1),
         props = [(''1'', Object (Stringifies ''10'') (Stringifies ''z''))]\<rparr>
       = Inl (Uncaught (DigitNotValid CHR ''z'' 10))
   \<and> int (length (usable decimalNumber [])) < 1
   \<and> main decimalNumber \<lparr>keys = Keys OtherNumber (IntegerNumber 1), props = []\<rparr>
       = Inl InvalidKeys"
proof -
  have "int (length (usable decimalNumber
      [(''1'', Object (Stringifies ''10'') (Stringifies ''z''))])) < 1"
    by code_simp
  moreover have "main decimalNumber
        \<lparr>keys = Keys (IntegerNumber 1) (IntegerNumber 1),
         props = [(''1'', Object (Stringifies ''10'') (Stringifies ''z''))]\<rparr>
       = Inl (Uncaught (DigitNotValid CHR ''z'' 10))"
    by code_simp
  moreover have "int (length (usable decimalNumber [])) < 1" by code_simp
  moreover have "main decimalNumber \<lparr>keys = Keys OtherNumber (IntegerNumber 1), props = []\<rparr>
       = Inl InvalidKeys"
    by code_simp
  ultimately show ?thesis by blast
qed

end
